theory Spec2Isabelle
  imports Complex_Main "HOL-Library.Multiset" "HOL-Library.Log_Nat"
begin

section \<open>JavaScript numbers and DataView writes\<close>

text \<open>
  The values the encoder reads from a channel (elements of a Float32Array) and the values
  it hands to \<^verbatim>\<open>DataView.setInt16\<close> are JavaScript numbers. A finite number is modelled by
  the rational it denotes; the three non-finite values are kept apart. The only products
  the encoder forms are a 32-bit float sample (24 significant bits) times \<^verbatim>\<open>0x8000\<close> or
  \<^verbatim>\<open>0x7FFF\<close> (at most 16 bits), which double precision represents exactly, so the exact
  product is the product JavaScript computes.
\<close>

datatype number = Num rat | PosInf | NegInf | NaN

text \<open>
  What a run can throw: an \<^verbatim>\<open>Error\<close> with its message (the only kind the source itself
  throws), and the exceptions of the platform.
\<close>

datatype error =
    Error string
  | RangeError
  | NotSupportedError
  | TypeError

definition and_then :: "error + 'a \<Rightarrow> ('a \<Rightarrow> error + 'b) \<Rightarrow> error + 'b" where
  "and_then r f = (case r of Inl e \<Rightarrow> Inl e | Inr v \<Rightarrow> f v)"

text \<open>\<^verbatim>\<open>Math.min\<close> and \<^verbatim>\<open>Math.max\<close>: NaN if either argument is NaN.\<close>

fun Math_min :: "number \<Rightarrow> number \<Rightarrow> number" where
  "Math_min NaN y = NaN"
| "Math_min x NaN = NaN"
| "Math_min NegInf y = NegInf"
| "Math_min x NegInf = NegInf"
| "Math_min PosInf y = y"
| "Math_min x PosInf = x"
| "Math_min (Num a) (Num b) = Num (min a b)"

fun Math_max :: "number \<Rightarrow> number \<Rightarrow> number" where
  "Math_max NaN y = NaN"
| "Math_max x NaN = NaN"
| "Math_max PosInf y = PosInf"
| "Math_max x PosInf = PosInf"
| "Math_max NegInf y = y"
| "Math_max x NegInf = x"
| "Math_max (Num a) (Num b) = Num (max a b)"

text \<open>The comparison \<^verbatim>\<open>x < y\<close>: false whenever an argument is NaN.\<close>

fun js_less :: "number \<Rightarrow> number \<Rightarrow> bool" where
  "js_less NaN y = False"
| "js_less x NaN = False"
| "js_less (Num a) (Num b) = (a < b)"
| "js_less NegInf NegInf = False"
| "js_less NegInf y = True"
| "js_less x NegInf = False"
| "js_less PosInf y = False"
| "js_less x PosInf = True"

fun sign_of :: "number \<Rightarrow> int" where
  "sign_of (Num a) = (if a < 0 then -1 else if a = 0 then 0 else 1)"
| "sign_of PosInf = 1"
| "sign_of NegInf = -1"
| "sign_of NaN = 0"

text \<open>The product \<^verbatim>\<open>x * y\<close>.\<close>

fun js_times :: "number \<Rightarrow> number \<Rightarrow> number" where
  "js_times NaN y = NaN"
| "js_times x NaN = NaN"
| "js_times (Num a) (Num b) = Num (a * b)"
| "js_times x y =
     (if sign_of x * sign_of y = 0 then NaN
      else if 0 < sign_of x * sign_of y then PosInf else NegInf)"

text \<open>
  The integer conversions of ECMAScript: a non-finite number converts to 0, a finite one is
  truncated toward zero and then reduced modulo the width of the target type.
\<close>

definition Math_trunc :: "rat \<Rightarrow> int" where
  "Math_trunc r = (if r < 0 then \<lceil>r\<rceil> else \<lfloor>r\<rfloor>)"

fun ToIntegerOrZero :: "number \<Rightarrow> int" where
  "ToIntegerOrZero (Num r) = Math_trunc r"
| "ToIntegerOrZero PosInf = 0"
| "ToIntegerOrZero NegInf = 0"
| "ToIntegerOrZero NaN = 0"

definition ToUint16 :: "number \<Rightarrow> nat" where
  "ToUint16 v = nat (ToIntegerOrZero v mod 65536)"

definition ToInt16 :: "number \<Rightarrow> int" where
  "ToInt16 v = (let u = ToIntegerOrZero v mod 65536 in if 32768 \<le> u then u - 65536 else u)"

text \<open>
  A DataView over a fresh ArrayBuffer is the list of its bytes. Every write checks its
  range and throws a RangeError outside the buffer. The unsigned setters are only ever
  called with non-negative integers, so they take a natural number and keep its low bits;
  all multi-byte writes of the encoder pass \<^verbatim>\<open>littleEndian = true\<close>.
\<close>

type_synonym DataView = "nat list"

definition ArrayBuffer :: "nat \<Rightarrow> DataView" where
  "ArrayBuffer n = replicate n 0"

definition setUint8 :: "DataView \<Rightarrow> nat \<Rightarrow> nat \<Rightarrow> error + DataView" where
  "setUint8 view byteOffset v =
     (if byteOffset + 1 \<le> length view
      then Inr (view[byteOffset := v mod 256])
      else Inl RangeError)"

definition setUint16 :: "DataView \<Rightarrow> nat \<Rightarrow> nat \<Rightarrow> error + DataView" where
  "setUint16 view byteOffset v =
     (if byteOffset + 2 \<le> length view
      then Inr (view[byteOffset := v mod 256, byteOffset + 1 := v div 256 mod 256])
      else Inl RangeError)"

definition setUint32 :: "DataView \<Rightarrow> nat \<Rightarrow> nat \<Rightarrow> error + DataView" where
  "setUint32 view byteOffset v =
     (if byteOffset + 4 \<le> length view
      then Inr (view[byteOffset := v mod 256,
                     byteOffset + 1 := v div 256 mod 256,
                     byteOffset + 2 := v div 65536 mod 256,
                     byteOffset + 3 := v div 16777216 mod 256])
      else Inl RangeError)"

definition setInt16 :: "DataView \<Rightarrow> nat \<Rightarrow> number \<Rightarrow> error + DataView" where
  "setInt16 view byteOffset v =
     (if byteOffset + 2 \<le> length view
      then Inr (view[byteOffset := ToUint16 v mod 256, byteOffset + 1 := ToUint16 v div 256])
      else Inl RangeError)"

section \<open>The encoder: audioBufferToWav\<close>

text \<open>
  An AudioBuffer: its sample rate in Hz (Web Audio contexts run at integral rates), its
  length in sample frames and one sample array per channel (\<^verbatim>\<open>getChannelData(i)\<close>). The
  platform only hands out buffers with at least one channel whose channel arrays all have
  the buffer's length.
\<close>

record AudioBuffer =
  sampleRate :: nat
  bufferLength :: nat
  channelData :: "number list list"

definition numberOfChannels :: "AudioBuffer \<Rightarrow> nat" where
  "numberOfChannels b = length (channelData b)"

definition valid_buffer :: "AudioBuffer \<Rightarrow> bool" where
  "valid_buffer b \<longleftrightarrow>
     channelData b \<noteq> [] \<and> list_all (\<lambda>c. length c = bufferLength b) (channelData b)"

text \<open>The loop of \<^verbatim>\<open>writeString\<close>: one \<^verbatim>\<open>setUint8\<close> per character code.\<close>

fun writeString :: "DataView \<Rightarrow> nat \<Rightarrow> string \<Rightarrow> error + DataView" where
  "writeString view offset [] = Inr view"
| "writeString view offset (c # cs) =
     and_then (setUint8 view offset (of_char c)) (\<lambda>view'. writeString view' (Suc offset) cs)"

text \<open>Lines 151 to 163: the thirteen header writes, in the order of the source.\<close>

definition writeHeader :: "AudioBuffer \<Rightarrow> nat \<Rightarrow> DataView \<Rightarrow> error + DataView" where
  "writeHeader b len view =
     and_then (writeString view 0 ''RIFF'') (\<lambda>view.
     and_then (setUint32 view 4 (36 + len)) (\<lambda>view.
     and_then (writeString view 8 ''WAVE'') (\<lambda>view.
     and_then (writeString view 12 ''fmt '') (\<lambda>view.
     and_then (setUint32 view 16 16) (\<lambda>view.
     and_then (setUint16 view 20 1) (\<lambda>view.
     and_then (setUint16 view 22 (numberOfChannels b)) (\<lambda>view.
     and_then (setUint32 view 24 (sampleRate b)) (\<lambda>view.
     and_then (setUint32 view 28 (sampleRate b * numberOfChannels b * 2)) (\<lambda>view.
     and_then (setUint16 view 32 (numberOfChannels b * 2)) (\<lambda>view.
     and_then (setUint16 view 34 16) (\<lambda>view.
     and_then (writeString view 36 ''data'') (\<lambda>view.
     setUint32 view 40 len))))))))))))"

text \<open>
  Lines 171 and 172: the sample is clamped with \<^verbatim>\<open>Math.max(-1, Math.min(1, x))\<close> and then
  scaled by \<^verbatim>\<open>0x8000\<close> when negative and by \<^verbatim>\<open>0x7FFF\<close> otherwise.
\<close>

definition clampSample :: "number \<Rightarrow> number" where
  "clampSample x = Math_max (Num (-1)) (Math_min (Num 1) x)"

definition scaleSample :: "number \<Rightarrow> number" where
  "scaleSample sample =
     (if js_less sample (Num 0) then js_times sample (Num 32768) else js_times sample (Num 32767))"

text \<open>The inner loop over \<open>j\<close> (lines 169 to 173), for channel \<open>i\<close> of \<open>n\<close> channels.\<close>

fun writeChannel :: "nat \<Rightarrow> nat \<Rightarrow> nat \<Rightarrow> number list \<Rightarrow> DataView \<Rightarrow> error + DataView" where
  "writeChannel n i j [] view = Inr view"
| "writeChannel n i j (x # xs) view =
     and_then (setInt16 view (44 + (j * n + i) * 2) (scaleSample (clampSample x)))
       (\<lambda>view'. writeChannel n i (Suc j) xs view')"

text \<open>The outer loop over \<open>i\<close> (lines 167 to 174).\<close>

fun writeChannels :: "nat \<Rightarrow> nat \<Rightarrow> number list list \<Rightarrow> DataView \<Rightarrow> error + DataView" where
  "writeChannels n i [] view = Inr view"
| "writeChannels n i (c # cs) view =
     and_then (writeChannel n i 0 c view) (\<lambda>view'. writeChannels n (Suc i) cs view')"

definition audioBufferToWav :: "AudioBuffer \<Rightarrow> error + nat list" where
  "audioBufferToWav b =
     (let len = bufferLength b * numberOfChannels b * 2;
          view = ArrayBuffer (44 + len)
      in and_then (writeHeader b len view)
           (\<lambda>view'. writeChannels (numberOfChannels b) 0 (channelData b) view'))"


subsection \<open>The container of section 6, as the specification words it\<close>

text \<open>
  A field written as uint16 or uint32 holds the low 16 or 32 bits of its value, least
  significant byte first.
\<close>

definition le16 :: "nat \<Rightarrow> nat list" where
  "le16 v = [v mod 256, v div 256 mod 256]"

definition le32 :: "nat \<Rightarrow> nat list" where
  "le32 v = [v mod 256, v div 256 mod 256, v div 65536 mod 256, v div 16777216 mod 256]"

definition wavHeader :: "nat \<Rightarrow> nat \<Rightarrow> nat \<Rightarrow> nat list" where
  "wavHeader rate channels dataLength =
     map of_char ''RIFF'' @ le32 (36 + dataLength) @ map of_char ''WAVE'' @
     map of_char ''fmt '' @ le32 16 @ le16 1 @ le16 channels @ le32 rate @
     le32 (rate * channels * 2) @ le16 (channels * 2) @ le16 16 @
     map of_char ''data'' @ le32 dataLength"

text \<open>The 16-bit value a sample is stored as, and its two's complement bytes.\<close>

definition encodeSample :: "number \<Rightarrow> int" where
  "encodeSample x = ToInt16 (scaleSample (clampSample x))"

definition int16le :: "int \<Rightarrow> nat list" where
  "int16le v = le16 (nat (v mod 65536))"

definition dataLength :: "AudioBuffer \<Rightarrow> nat" where
  "dataLength b = bufferLength b * numberOfChannels b * 2"

text \<open>Interleaved samples: frame after frame, within a frame channel after channel.\<close>

definition interleaved :: "AudioBuffer \<Rightarrow> nat list" where
  "interleaved b =
     concat (map (\<lambda>j. concat (map (\<lambda>c. int16le (encodeSample (c ! j))) (channelData b)))
       [0..<bufferLength b])"

definition bytesAt :: "nat list \<Rightarrow> nat \<Rightarrow> nat \<Rightarrow> nat list" where
  "bytesAt w offset n = take n (drop offset w)"

text \<open>Decoding a header field: the little-endian reads of a DataView.\<close>

definition getUint16 :: "nat list \<Rightarrow> nat \<Rightarrow> nat" where
  "getUint16 w offset = w ! offset + 256 * w ! (offset + 1)"

definition getUint32 :: "nat list \<Rightarrow> nat \<Rightarrow> nat" where
  "getUint32 w offset =
     w ! offset + 256 * w ! (offset + 1) + 65536 * w ! (offset + 2) + 16777216 * w ! (offset + 3)"

text \<open>The byte the loops leave for a sample: the low byte first, then the high byte.\<close>

definition sampleByte :: "number \<Rightarrow> nat \<Rightarrow> nat" where
  "sampleByte x part =
     (let u = ToUint16 (scaleSample (clampSample x)) in if part = 0 then u mod 256 else u div 256)"

section \<open>Double precision arithmetic of the renderer\<close>

text \<open>
  The times of a parsed MIDI file and the sample rate are doubles, and a sum or a product of
  doubles is the exact result rounded to the nearest double, ties to the even mantissa: 53
  significant bits, the smallest unit \<open>2 powi - 1074\<close>, and infinity from \<open>2 powi 1024\<close>
  on. (The products of the encoder above are exact and need no rounding.)
\<close>

text \<open>The exponent \<open>e\<close> with \<open>2 powi e \<le> a < 2 powi (e + 1)\<close>, for a positive \<open>a\<close>.\<close>

definition floorLog2 :: "rat \<Rightarrow> int" where
  "floorLog2 a =
     (if 1 \<le> a then int (floorlog 2 (nat \<lfloor>a\<rfloor>)) - 1
      else - int (ceillog2 (nat \<lceil>1 / a\<rceil>)))"

definition roundHalfEven :: "rat \<Rightarrow> int" where
  "roundHalfEven s =
     (let f = \<lfloor>s\<rfloor>; d = s - of_int f
      in if d < 1 / 2 then f else if 1 / 2 < d then f + 1 else if even f then f else f + 1)"

definition roundToDouble :: "rat \<Rightarrow> number" where
  "roundToDouble x =
     (if x = 0 then Num 0
      else let a = \<bar>x\<bar>;
               q = max (floorLog2 a - 52) (- 1074);
               y = of_int (roundHalfEven (a / 2 powi q)) * 2 powi q
           in if 2 powi 1024 \<le> y then (if x < 0 then NegInf else PosInf)
              else Num (if x < 0 then - y else y))"

text \<open>The sum \<^verbatim>\<open>x + y\<close> and the product \<^verbatim>\<open>x * y\<close> of two numbers, rounded.\<close>

fun double_plus :: "number \<Rightarrow> number \<Rightarrow> number" where
  "double_plus NaN y = NaN"
| "double_plus x NaN = NaN"
| "double_plus (Num a) (Num b) = roundToDouble (a + b)"
| "double_plus PosInf NegInf = NaN"
| "double_plus NegInf PosInf = NaN"
| "double_plus PosInf y = PosInf"
| "double_plus x PosInf = PosInf"
| "double_plus NegInf y = NegInf"
| "double_plus x NegInf = NegInf"

fun double_times :: "number \<Rightarrow> number \<Rightarrow> number" where
  "double_times NaN y = NaN"
| "double_times x NaN = NaN"
| "double_times (Num a) (Num b) = roundToDouble (a * b)"
| "double_times x y =
     (if sign_of x * sign_of y = 0 then NaN
      else if 0 < sign_of x * sign_of y then PosInf else NegInf)"

text \<open>\<^verbatim>\<open>Math.ceil\<close>: the least integer not below a finite number.\<close>

fun Math_ceil :: "number \<Rightarrow> number" where
  "Math_ceil (Num r) = Num (of_int \<lceil>r\<rceil>)"
| "Math_ceil PosInf = PosInf"
| "Math_ceil NegInf = NegInf"
| "Math_ceil NaN = NaN"

section \<open>The renderer: processMidiWithSoundfont\<close>

text \<open>
  The parsed MIDI file: tracks of notes with key number, velocity, start time and duration
  in seconds.
\<close>

record Note =
  midi :: nat
  velocity :: rat
  time :: rat
  duration :: rat

record Track =
  trackNotes :: "Note list"

record Midi =
  tracks :: "Track list"

definition events :: "Midi \<Rightarrow> Note list" where
  "events m = concat (map trackNotes (tracks m))"

text \<open>The end of a note, \<^verbatim>\<open>note.time + note.duration\<close>.\<close>

definition noteEnd :: "Note \<Rightarrow> number" where
  "noteEnd n = double_plus (Num (time n)) (Num (duration n))"

text \<open>
  Modelled from the spec: the getter \<^verbatim>\<open>midi.duration\<close> belongs to the MIDI parsing package,
  whose code is not among the sources of the repository. Section 3 of the specification
  gives it: the duration of the timeline is the maximum over all events of start time plus
  duration. For a timeline without events the specification gives no value, and neither
  does the model.
\<close>

definition Midi_duration :: "Midi \<Rightarrow> number" where
  "Midi_duration m =
     (if events m = [] then undefined
      else fold (\<lambda>n acc. Math_max acc (noteEnd n)) (events m) NegInf)"

text \<open>The three refs the function reads; \<open>None\<close> is \<^verbatim>\<open>null\<close>.\<close>

record AudioContext =
  contextSampleRate :: nat

record AppState =
  audioContextRef :: "AudioContext option"
  midiDataRef :: "Midi option"
  soundfontDataRef :: "nat list option"

text \<open>
  The offline context. The length argument of its constructor is an unsigned long, which
  the platform converts with the range enforced: a TypeError for a value that is not finite
  or, truncated, lies outside 0 to 4294967295. (A platform that reduces such a length
  modulo 4294967296 instead differs on exactly these lengths.) After the conversion the
  constructor throws a NotSupportedError when an argument is zero. Memory limits of the
  platform are not modelled.
\<close>

definition toUnsignedLong :: "number \<Rightarrow> error + nat" where
  "toUnsignedLong v =
     (case v of
        Num r \<Rightarrow>
          if Math_trunc r < 0 \<or> 4294967295 < Math_trunc r then Inl TypeError
          else Inr (nat (Math_trunc r))
      | _ \<Rightarrow> Inl TypeError)"

record OfflineAudioContext =
  offlineChannels :: nat
  offlineLength :: nat
  offlineSampleRate :: nat

definition new_OfflineAudioContext ::
    "nat \<Rightarrow> number \<Rightarrow> nat \<Rightarrow> error + OfflineAudioContext" where
  "new_OfflineAudioContext c l r =
     and_then (toUnsignedLong l) (\<lambda>len.
       if c = 0 \<or> len = 0 \<or> r = 0 then Inl NotSupportedError
       else Inr \<lparr>offlineChannels = c, offlineLength = len, offlineSampleRate = r\<rparr>)"

text \<open>
  Lines 87 to 92: the processor class registered as \<^verbatim>\<open>soundfont-processor\<close>. Its
  \<^verbatim>\<open>process\<close> method leaves the output arrays as it finds them and returns true; the class
  installs no message handler.
\<close>

definition SoundfontProcessor_process ::
    "number list list list \<Rightarrow> number list list list \<Rightarrow> number list list list \<times> bool" where
  "SoundfontProcessor_process inputs outputs = (outputs, True)"

datatype message =
    LoadSoundfont "nat list"
  | NoteOn nat rat rat
  | NoteOff nat number

record AudioWorkletNode =
  port :: "message list"

definition postMessage :: "AudioWorkletNode \<Rightarrow> message \<Rightarrow> AudioWorkletNode" where
  "postMessage node msg = node\<lparr>port := port node @ [msg]\<rparr>"

text \<open>Lines 109 to 125: the two messages of each note of a track, in the track's order.\<close>

fun scheduleNotes :: "AudioWorkletNode \<Rightarrow> Note list \<Rightarrow> AudioWorkletNode" where
  "scheduleNotes node [] = node"
| "scheduleNotes node (note # rest) =
     (let noteOnTime = time note;
          noteOffTime = double_plus (Num noteOnTime) (Num (duration note));
          node1 = postMessage node (NoteOn (midi note) (velocity note) noteOnTime);
          node2 = postMessage node1 (NoteOff (midi note) noteOffTime)
      in scheduleNotes node2 rest)"

text \<open>Lines 108 to 126: the tracks in their order.\<close>

fun scheduleTracks :: "AudioWorkletNode \<Rightarrow> Track list \<Rightarrow> AudioWorkletNode" where
  "scheduleTracks node [] = node"
| "scheduleTracks node (track # rest) = scheduleTracks (scheduleNotes node (trackNotes track)) rest"

text \<open>Lines 97 to 126: the node, the soundfont message if a soundfont is loaded, the notes.\<close>

definition createSynthNode :: "AppState \<Rightarrow> Midi \<Rightarrow> AudioWorkletNode" where
  "createSynthNode st m =
     (let synthNode = \<lparr>port = []\<rparr>;
          synthNode1 = (case soundfontDataRef st of
                          Some data \<Rightarrow> postMessage synthNode (LoadSoundfont data)
                        | None \<Rightarrow> synthNode)
      in scheduleTracks synthNode1 (tracks m))"

text \<open>
  Offline rendering runs the graph in render quanta of 128 frames. For each quantum the
  platform hands the processor zero-filled output arrays, one per channel, and takes what
  \<^verbatim>\<open>process\<close> leaves in them; the node is the only source connected to the destination.
  The posted messages wait at the port of a processor that never reads them.
\<close>

definition renderQuantum :: "nat \<Rightarrow> number list list" where
  "renderQuantum c =
     (case fst (SoundfontProcessor_process [] [replicate c (replicate 128 (Num 0))]) of
        [] \<Rightarrow> replicate c (replicate 128 (Num 0))
      | out # _ \<Rightarrow> out)"

definition startRendering :: "OfflineAudioContext \<Rightarrow> AudioWorkletNode \<Rightarrow> AudioBuffer" where
  "startRendering ctx node =
     \<lparr>sampleRate = offlineSampleRate ctx,
      bufferLength = offlineLength ctx,
      channelData =
        map (\<lambda>quantum. take (offlineLength ctx)
                (concat (replicate ((offlineLength ctx + 127) div 128) quantum)))
          (renderQuantum (offlineChannels ctx))\<rparr>"

text \<open>
  Line 80: the length handed to the offline context,
  \<^verbatim>\<open>Math.ceil(midi.duration * ctx.sampleRate)\<close>.
\<close>

definition totalFrames :: "AudioContext \<Rightarrow> Midi \<Rightarrow> number" where
  "totalFrames ctx m =
     Math_ceil (double_times (Midi_duration m) (Num (of_nat (contextSampleRate ctx))))"

text \<open>Lines 70 to 131: everything up to the rendered buffer.\<close>

definition renderMidi :: "AppState \<Rightarrow> error + AudioBuffer" where
  "renderMidi st =
     (case (audioContextRef st, midiDataRef st) of
        (Some ctx, Some m) \<Rightarrow>
          and_then
            (new_OfflineAudioContext 2 (totalFrames ctx m) (contextSampleRate ctx))
            (\<lambda>offlineCtx. Inr (startRendering offlineCtx (createSynthNode st m)))
      | _ \<Rightarrow> Inl (Error ''Audio context or MIDI data not initialized''))"

text \<open>Lines 133 to 135: the rendered buffer is encoded and returned.\<close>

definition processMidiWithSoundfont :: "AppState \<Rightarrow> error + nat list" where
  "processMidiWithSoundfont st = and_then (renderMidi st) audioBufferToWav"

section \<open>Concrete inputs and auxiliary predicates\<close>

definition exampleBuffer :: AudioBuffer where
  "exampleBuffer =
     \<lparr>sampleRate = 44100, bufferLength = 2,
      channelData = [[Num 1, Num (-1)], [Num 0, Num (1 / 2)]]\<rparr>"

definition hugeBuffer :: AudioBuffer where
  "hugeBuffer =
     \<lparr>sampleRate = 44100, bufferLength = 1073741824,
      channelData = [replicate 1073741824 (Num 0), replicate 1073741824 (Num 0)]\<rparr>"

text \<open>A number that a signed 16-bit integer cannot hold.\<close>

fun outsideInt16 :: "number \<Rightarrow> bool" where
  "outsideInt16 (Num v) = (v < -32768 \<or> 32767 < v)"
| "outsideInt16 PosInf = True"
| "outsideInt16 NegInf = True"
| "outsideInt16 NaN = False"

text \<open>The two messages posted for a note, and the readings of a message list.\<close>

definition noteMessages :: "Note \<Rightarrow> message list" where
  "noteMessages n =
     [NoteOn (midi n) (velocity n) (time n),
      NoteOff (midi n) (double_plus (Num (time n)) (Num (duration n)))]"

fun noteOnTimes :: "message list \<Rightarrow> rat list" where
  "noteOnTimes [] = []"
| "noteOnTimes (NoteOn k v t # msgs) = t # noteOnTimes msgs"
| "noteOnTimes (msg # msgs) = noteOnTimes msgs"

fun noteOnVelocities :: "message list \<Rightarrow> rat list" where
  "noteOnVelocities [] = []"
| "noteOnVelocities (NoteOn k v t # msgs) = v # noteOnVelocities msgs"
| "noteOnVelocities (msg # msgs) = noteOnVelocities msgs"

text \<open>A timeline with every velocity replaced.\<close>

definition withVelocities :: "(Note \<Rightarrow> rat) \<Rightarrow> Midi \<Rightarrow> Midi" where
  "withVelocities f m =
     \<lparr>tracks = map (\<lambda>t. \<lparr>trackNotes = map (\<lambda>n. n\<lparr>velocity := f n\<rparr>) (trackNotes t)\<rparr>)
                  (tracks m)\<rparr>"

text \<open>
  A container of two channels of silence: the header for the given rate and frame count,
  then four zero bytes per frame.
\<close>

definition silentWav :: "nat \<Rightarrow> nat \<Rightarrow> nat list" where
  "silentWav rate frames = wavHeader rate 2 (frames * 2 * 2) @ replicate (frames * 2 * 2) 0"

text \<open>
  The scenario of the specification: one track with one note of key 69, velocity 1, start 0
  and duration 1 second, a context running at 44100 Hz, no soundfont.
\<close>

definition scenarioA4 :: AppState where
  "scenarioA4 =
     \<lparr>audioContextRef = Some \<lparr>contextSampleRate = 44100\<rparr>,
      midiDataRef = Some \<lparr>tracks =
        [\<lparr>trackNotes = [\<lparr>midi = 69, velocity = 1, time = 0, duration = 1\<rparr>]\<rparr>]\<rparr>,
      soundfontDataRef = None\<rparr>"


definition tinyState :: AppState where
  "tinyState =
     \<lparr>audioContextRef = Some \<lparr>contextSampleRate = 44100\<rparr>,
      midiDataRef = Some \<lparr>tracks =
        [\<lparr>trackNotes = [\<lparr>midi = 60, velocity = 1 / 2, time = 0, duration = 1 / 32768\<rparr>]\<rparr>]\<rparr>,
      soundfontDataRef = Some [115, 102, 98, 107]\<rparr>"

text \<open>A state with a 44100 Hz context, the given timeline and no soundfont.\<close>

definition stateOf :: "Midi \<Rightarrow> AppState" where
  "stateOf m =
     \<lparr>audioContextRef = Some \<lparr>contextSampleRate = 44100\<rparr>, midiDataRef = Some m,
      soundfontDataRef = None\<rparr>"

text \<open>
  Two tracks of one note each: the first track's note starts at second 1, the second
  track's at second 0; and the same two tracks in the other order.
\<close>

definition lateFirstMidi :: Midi where
  "lateFirstMidi =
     \<lparr>tracks = [\<lparr>trackNotes = [\<lparr>midi = 60, velocity = 1, time = 1, duration = 1\<rparr>]\<rparr>,
                \<lparr>trackNotes = [\<lparr>midi = 62, velocity = 1, time = 0, duration = 1\<rparr>]\<rparr>]\<rparr>"

definition earlyFirstMidi :: Midi where
  "earlyFirstMidi =
     \<lparr>tracks = [\<lparr>trackNotes = [\<lparr>midi = 62, velocity = 1, time = 0, duration = 1\<rparr>]\<rparr>,
                \<lparr>trackNotes = [\<lparr>midi = 60, velocity = 1, time = 1, duration = 1\<rparr>]\<rparr>]\<rparr>"

text \<open>A note of velocity 0.\<close>

definition zeroVelocityMidi :: Midi where
  "zeroVelocityMidi =
     \<lparr>tracks = [\<lparr>trackNotes = [\<lparr>midi = 69, velocity = 0, time = 0, duration = 1\<rparr>]\<rparr>]\<rparr>"

text \<open>
  Two tracks of one note each, both starting at 0: the first lasts 1/16 second, the second
  as long as the double nearest to 0.1, which is 3602879701896397 / 36028797018963968.
\<close>

definition tenthMidi :: Midi where
  "tenthMidi =
     \<lparr>tracks =
        [\<lparr>trackNotes = [\<lparr>midi = 60, velocity = 1, time = 0, duration = 1 / 16\<rparr>]\<rparr>,
         \<lparr>trackNotes = [\<lparr>midi = 64, velocity = 1, time = 0,
                          duration = 3602879701896397 / 36028797018963968\<rparr>]\<rparr>]\<rparr>"

text \<open>One note of 100000 seconds.\<close>

definition longMidi :: Midi where
  "longMidi =
     \<lparr>tracks = [\<lparr>trackNotes = [\<lparr>midi = 60, velocity = 1, time = 0, duration = 100000\<rparr>]\<rparr>]\<rparr>"

section \<open>Properties of the encoder\<close>

subsection \<open>The header writes\<close>

lemma length_wavHeader: "length (wavHeader r c d) = 44"
  by (simp add: wavHeader_def le16_def le32_def)

lemma and_then_Inr: "and_then (Inr v) f = f v"
  by (simp add: and_then_def)

lemma and_then_Inl: "and_then (Inl e) f = Inl e"
  by (simp add: and_then_def)

lemma setUint8_splice:
  "off < length view \<Longrightarrow>
   setUint8 view off v = Inr (take off view @ [v mod 256] @ drop (off + 1) view)"
  by (simp add: setUint8_def upd_conv_take_nth_drop)

lemma setUint16_splice:
  "off + 2 \<le> length view \<Longrightarrow>
   setUint16 view off v = Inr (take off view @ le16 v @ drop (off + 2) view)"
  by (simp add: setUint16_def le16_def upd_conv_take_nth_drop take_Suc_conv_app_nth
      Cons_nth_drop_Suc nth_list_update)

lemma setUint32_splice:
  "off + 4 \<le> length view \<Longrightarrow>
   setUint32 view off v = Inr (take off view @ le32 v @ drop (off + 4) view)"
  apply (simp add: setUint32_def le32_def)
  apply (rule nth_equalityI)
   apply simp
  apply (auto simp: nth_list_update nth_append)
  done

lemma writeString_splice:
  "off + length s \<le> length view \<Longrightarrow>
   writeString view off s = Inr (take off view @ map of_char s @ drop (off + length s) view)"
proof (induction s arbitrary: view off)
  case Nil
  then show ?case by simp
next
  case (Cons c cs)
  have c: "(of_char c :: nat) mod 256 = of_char c"
    by simp
  from Cons.prems have "off < length view" by simp
  then have s: "setUint8 view off (of_char c) =
      Inr (take off view @ [of_char c] @ drop (off + 1) view)"
    using setUint8_splice [of off view "of_char c"] c by simp
  let ?v = "take off view @ [of_char c] @ drop (off + 1) view"
  from Cons.prems have "Suc off + length cs \<le> length ?v" by simp
  from Cons.IH [OF this] Cons.prems show ?case
    by (simp add: s and_then_def take_Suc_conv_app_nth nth_append add.commute)
qed

lemma writeHeader_splice:
  assumes "44 \<le> length view"
  shows "writeHeader b len view =
    Inr (wavHeader (sampleRate b) (numberOfChannels b) len @ drop 44 view)"
  using assms
  by (simp add: writeHeader_def and_then_Inr writeString_splice setUint16_splice
      setUint32_splice wavHeader_def le16_def le32_def del: writeString.simps)

lemma pos_split:
  fixes i n p j :: nat
  assumes "i < n"
  shows "(p mod n = i \<and> p div n = j) \<longleftrightarrow> p = j * n + i"
  using assms by auto

lemma byte_pos:
  fixes k m :: nat
  shows "(k = 44 + m * 2 \<or> k = 44 + m * 2 + 1) \<longleftrightarrow> (44 \<le> k \<and> (k - 44) div 2 = m)"
  by presburger

lemma writeChannel_nth:
  assumes "i < n" and "44 + (j + length xs) * n * 2 \<le> length view"
  shows "\<exists>view'. writeChannel n i j xs view = Inr view' \<and> length view' = length view \<and>
    (\<forall>k<length view. view' ! k =
       (if 44 \<le> k \<and> (k - 44) div 2 mod n = i \<and> j \<le> (k - 44) div 2 div n \<and>
           (k - 44) div 2 div n < j + length xs
        then sampleByte (xs ! ((k - 44) div 2 div n - j)) ((k - 44) mod 2)
        else view ! k))"
  using assms
proof (induction xs arbitrary: j view)
  case Nil
  then show ?case by simp
next
  case (Cons x xs)
  let ?idx = "44 + (j * n + i) * 2"
  let ?v = "scaleSample (clampSample x)"
  let ?view1 = "view[?idx := ToUint16 ?v mod 256, ?idx + 1 := ToUint16 ?v div 256]"
  have "(j * n + i) * 2 + 2 \<le> (j + Suc (length xs)) * n * 2"
    using Cons.prems(1) by (simp add: algebra_simps) 
  with Cons.prems(2) have inr: "?idx + 2 \<le> length view"
    by simp
  then have set: "setInt16 view ?idx ?v = Inr ?view1"
    by (simp add: setInt16_def)
  have len1: "44 + (Suc j + length xs) * n * 2 \<le> length ?view1"
    using Cons.prems(2) by simp
  from Cons.IH [OF Cons.prems(1) len1] obtain view' where
    run: "writeChannel n i (Suc j) xs ?view1 = Inr view'" and
    len: "length view' = length ?view1" and
    nth: "\<forall>k<length ?view1. view' ! k =
       (if 44 \<le> k \<and> (k - 44) div 2 mod n = i \<and> Suc j \<le> (k - 44) div 2 div n \<and>
           (k - 44) div 2 div n < Suc j + length xs
        then sampleByte (xs ! ((k - 44) div 2 div n - Suc j)) ((k - 44) mod 2)
        else ?view1 ! k)"
    by blast
  have "view' ! k =
       (if 44 \<le> k \<and> (k - 44) div 2 mod n = i \<and> j \<le> (k - 44) div 2 div n \<and>
           (k - 44) div 2 div n < j + length (x # xs)
        then sampleByte ((x # xs) ! ((k - 44) div 2 div n - j)) ((k - 44) mod 2)
        else view ! k)" if k: "k < length view" for k
  proof (cases "44 \<le> k \<and> (k - 44) div 2 mod n = i \<and> (k - 44) div 2 div n = j")
    case True
    then have "(k - 44) div 2 = j * n + i"
      using pos_split [OF Cons.prems(1), of "(k - 44) div 2" j] by simp
    with True have pos: "k = ?idx \<or> k = ?idx + 1"
      using byte_pos [of k "j * n + i"] by simp
    have "view' ! k = ?view1 ! k"
      using nth k True by simp
    also have "\<dots> = sampleByte x ((k - 44) mod 2)"
    proof -
      have "(k - 44) mod 2 = (if k = ?idx then 0 else 1)"
        using pos by presburger
      then show ?thesis
        using pos inr by (auto simp: sampleByte_def nth_list_update simp del: mult_Suc_right)
    qed
    finally show ?thesis
      using True by simp
  next
    case False
    then have "\<not> (k = ?idx \<or> k = ?idx + 1)"
      using byte_pos [of k "j * n + i"] pos_split [OF Cons.prems(1), of "(k - 44) div 2" j]
      by blast
    then have same: "?view1 ! k = view ! k"
      by simp
    show ?thesis
    proof (cases "44 \<le> k \<and> (k - 44) div 2 mod n = i \<and> Suc j \<le> (k - 44) div 2 div n \<and>
           (k - 44) div 2 div n < Suc j + length xs")
      case True
      then have "(k - 44) div 2 div n - j = Suc ((k - 44) div 2 div n - Suc j)"
        by linarith
      with True nth k show ?thesis by simp
    next
      case F2: False
      with False have nc: "\<not> (44 \<le> k \<and> (k - 44) div 2 mod n = i \<and> j \<le> (k - 44) div 2 div n \<and>
           (k - 44) div 2 div n < j + length (x # xs))"
        by (simp; linarith)
      have k1: "k < length ?view1"
        using k by simp
      have "view' ! k = ?view1 ! k"
        using nth [rule_format, OF k1] by (simp only: F2 if_False)
      with same have "view' ! k = view ! k"
        by (simp only:)
      then show ?thesis
        by (simp only: nc if_False)
    qed
  qed
  with run len set show ?case
    by (simp add: and_then_Inr)
qed



lemma writeChannels_nth:
  assumes "i + length cs \<le> n" and "list_all (\<lambda>c. length c = len) cs"
    and "44 + len * n * 2 \<le> length view"
  shows "\<exists>view'. writeChannels n i cs view = Inr view' \<and> length view' = length view \<and>
    (\<forall>k<length view. view' ! k =
       (if 44 \<le> k \<and> i \<le> (k - 44) div 2 mod n \<and> (k - 44) div 2 mod n < i + length cs \<and>
           (k - 44) div 2 div n < len
        then sampleByte (cs ! ((k - 44) div 2 mod n - i) ! ((k - 44) div 2 div n)) ((k - 44) mod 2)
        else view ! k))"
  using assms
proof (induction cs arbitrary: i view)
  case Nil
  then show ?case by simp
next
  case (Cons c cs)
  from Cons.prems(1) have i: "i < n" by simp
  from Cons.prems(2) have c: "length c = len" and cs: "list_all (\<lambda>c. length c = len) cs"
    by simp_all
  from Cons.prems(3) c have "44 + (0 + length c) * n * 2 \<le> length view"
    by simp
  from writeChannel_nth [OF i this] obtain view1 where
    run1: "writeChannel n i 0 c view = Inr view1" and
    len1: "length view1 = length view" and
    nth1: "\<forall>k<length view. view1 ! k =
       (if 44 \<le> k \<and> (k - 44) div 2 mod n = i \<and> 0 \<le> (k - 44) div 2 div n \<and>
           (k - 44) div 2 div n < 0 + length c
        then sampleByte (c ! ((k - 44) div 2 div n - 0)) ((k - 44) mod 2)
        else view ! k)"
    by blast
  from Cons.prems(1) have i': "Suc i + length cs \<le> n" by simp
  from Cons.prems(3) len1 have l': "44 + len * n * 2 \<le> length view1" by simp
  from Cons.IH [OF i' cs l'] obtain view' where
    run: "writeChannels n (Suc i) cs view1 = Inr view'" and
    len: "length view' = length view1" and
    nth: "\<forall>k<length view1. view' ! k =
       (if 44 \<le> k \<and> Suc i \<le> (k - 44) div 2 mod n \<and>
           (k - 44) div 2 mod n < Suc i + length cs \<and> (k - 44) div 2 div n < len
        then sampleByte (cs ! ((k - 44) div 2 mod n - Suc i) ! ((k - 44) div 2 div n))
               ((k - 44) mod 2)
        else view1 ! k)"
    by blast
  have "view' ! k =
       (if 44 \<le> k \<and> i \<le> (k - 44) div 2 mod n \<and>
           (k - 44) div 2 mod n < i + length (c # cs) \<and> (k - 44) div 2 div n < len
        then sampleByte ((c # cs) ! ((k - 44) div 2 mod n - i) ! ((k - 44) div 2 div n))
               ((k - 44) mod 2)
        else view ! k)" if k: "k < length view" for k
  proof -
    let ?ch = "(k - 44) div 2 mod n"
    let ?fr = "(k - 44) div 2 div n"
    from k len1 have k1: "k < length view1" by simp
    note a = nth [rule_format, OF k1]
    note b = nth1 [rule_format, OF k]
    consider (here) "44 \<le> k" "?ch = i" "?fr < len"
      | (later) "44 \<le> k" "Suc i \<le> ?ch" "?ch < Suc i + length cs" "?fr < len"
      | (none) "\<not> (44 \<le> k \<and> i \<le> ?ch \<and> ?ch < i + length (c # cs) \<and> ?fr < len)"
    proof -
      define ch fr where "ch = ?ch" and "fr = ?fr"
      have "(44 \<le> k \<and> ch = i \<and> fr < len) \<or>
            (44 \<le> k \<and> Suc i \<le> ch \<and> ch < Suc i + length cs \<and> fr < len) \<or>
            \<not> (44 \<le> k \<and> i \<le> ch \<and> ch < i + Suc (length cs) \<and> fr < len)"
        by linarith
      then show ?thesis
        using here later none unfolding ch_def fr_def by auto
    qed
    then show ?thesis
    proof cases
      case here
      then have "view' ! k = view1 ! k"
        using a by simp
      also have "\<dots> = sampleByte (c ! ?fr) ((k - 44) mod 2)"
        using b here c by simp
      finally show ?thesis
        using here by simp
    next
      case later
      then have "?ch - i = Suc (?ch - Suc i)"
        by linarith
      with later a show ?thesis
        by simp
    next
      case none
      then have n1: "\<not> (44 \<le> k \<and> Suc i \<le> ?ch \<and> ?ch < Suc i + length cs \<and> ?fr < len)"
        by (simp; linarith)
      from none c have n2: "\<not> (44 \<le> k \<and> ?ch = i \<and> 0 \<le> ?fr \<and> ?fr < 0 + length c)"
        by (simp; linarith)
      have "view' ! k = view1 ! k"
        using a by (simp only: n1 if_False)
      also have "\<dots> = view ! k"
        using b by (simp only: n2 if_False)
      finally show ?thesis
        by (simp only: none if_False)
    qed
  qed
  with run run1 len len1 show ?case
    by (simp add: and_then_Inr)
qed

lemma concat_blocks_nth:
  fixes f :: "nat \<Rightarrow> 'a list"
  assumes "\<And>j. j < m \<Longrightarrow> length (f j) = w" and "k < m * w"
  shows "concat (map f [0..<m]) ! k = f (k div w) ! (k mod w)"
  using assms
proof (induction m)
  case 0
  then show ?case by simp
next
  case (Suc m)
  have len: "length (concat (map f [0..<m])) = m * w"
    using Suc.prems(1) by (induction m) simp_all
  show ?case
  proof (cases "k < m * w")
    case True
    with Suc len show ?thesis
      by (simp add: nth_append)
  next
    case False
    then have ge: "m * w \<le> k" by simp
    from Suc.prems(2) have "0 < w" by (cases w) simp_all
    from ge Suc.prems(2) have "k div w = m"
      by (metis \<open>0 < w\<close> div_less_iff_less_mult div_mult_self_is_m le_antisym less_Suc_eq_le
          div_le_mono)
    moreover from this have "k mod w = k - m * w"
      by (metis minus_mult_div_eq_mod mult.commute)
    ultimately show ?thesis
      using False len by (simp add: nth_append)
  qed
qed

lemma length_concat_blocks:
  fixes f :: "nat \<Rightarrow> 'a list"
  assumes "\<And>j. j < m \<Longrightarrow> length (f j) = w"
  shows "length (concat (map f [0..<m])) = m * w"
  using assms by (induction m) simp_all

lemma ToUint16_less: "ToUint16 v < 65536"
  by (simp add: ToUint16_def nat_less_iff)

lemma ToInt16_mod: "ToInt16 v mod 65536 = ToIntegerOrZero v mod 65536"
proof -
  have "(ToIntegerOrZero v mod 65536 - 65536) mod 65536 = ToIntegerOrZero v mod 65536"
    by (metis mod_mod_trivial mod_diff_right_eq mod_self diff_zero)
  then show ?thesis
    by (simp add: ToInt16_def Let_def)
qed

lemma int16le_encodeSample:
  "int16le (encodeSample x) = [sampleByte x 0, sampleByte x 1]"
proof -
  let ?u = "ToUint16 (scaleSample (clampSample x))"
  have "?u div 256 < 256"
    using ToUint16_less [of "scaleSample (clampSample x)"] by simp
  then have "?u div 256 mod 256 = ?u div 256"
    by simp
  then show ?thesis
    by (simp add: int16le_def encodeSample_def ToInt16_mod le16_def sampleByte_def Let_def
        ToUint16_def)
qed

lemma length_int16le: "length (int16le v) = 2"
  by (simp add: int16le_def le16_def)

lemma frame_bytes_nth:
  assumes "r < length cs * 2"
  shows "concat (map (\<lambda>c. int16le (encodeSample (c ! j))) cs) ! r =
    sampleByte (cs ! (r div 2) ! j) (r mod 2)"
proof -
  have "concat (map (\<lambda>c. int16le (encodeSample (c ! j))) cs) =
      concat (map (\<lambda>i. int16le (encodeSample (cs ! i ! j))) [0..<length cs])"
    by (rule arg_cong [where f = concat], rule nth_equalityI) simp_all
  also have "\<dots> ! r = int16le (encodeSample (cs ! (r div 2) ! j)) ! (r mod 2)"
    using assms by (intro concat_blocks_nth) (simp_all add: length_int16le)
  also have "\<dots> = sampleByte (cs ! (r div 2) ! j) (r mod 2)"
  proof -
    have "r mod 2 = 0 \<or> r mod 2 = 1" by presburger
    then show ?thesis
      by (auto simp: int16le_encodeSample)
  qed
  finally show ?thesis .
qed

lemma length_frame_bytes:
  "length (concat (map (\<lambda>c. int16le (encodeSample (c ! j))) cs)) = length cs * 2"
  by (induction cs) (simp_all add: length_int16le)

lemma length_interleaved: "length (interleaved b) = dataLength b"
  unfolding interleaved_def dataLength_def numberOfChannels_def
  by (subst length_concat_blocks [where w = "length (channelData b) * 2"])
     (simp_all add: length_frame_bytes)

lemma interleaved_nth:
  assumes "q < dataLength b" and "channelData b \<noteq> []"
  shows "interleaved b ! q =
    sampleByte (channelData b ! (q div 2 mod numberOfChannels b) ! (q div 2 div numberOfChannels b))
      (q mod 2)"
proof -
  let ?n = "length (channelData b)"
  let ?w = "?n * 2"
  from assms(2) have n: "0 < ?n" by simp
  have q: "q < bufferLength b * ?w"
    using assms(1) by (simp add: dataLength_def numberOfChannels_def)
  have r: "q mod ?w < ?n * 2"
    using n by simp
  have m: "q mod ?w = 2 * (q div 2 mod ?n) + q mod 2"
    using mod_mult2_eq [of q 2 ?n] by (simp add: mult.commute)
  have d: "q div ?w = q div 2 div ?n"
    by (metis div_mult2_eq mult.commute)
  have "interleaved b ! q =
      concat (map (\<lambda>c. int16le (encodeSample (c ! (q div ?w)))) (channelData b)) ! (q mod ?w)"
    unfolding interleaved_def using q
    by (intro concat_blocks_nth) (simp_all add: length_frame_bytes)
  also have "\<dots> = sampleByte (channelData b ! (q mod ?w div 2) ! (q div ?w)) (q mod ?w mod 2)"
    using r by (rule frame_bytes_nth)
  also have "q mod ?w div 2 = q div 2 mod ?n"
    unfolding m by simp
  also have "q mod ?w mod 2 = q mod 2"
    unfolding m by simp
  finally show ?thesis
    by (simp add: d numberOfChannels_def)
qed

lemma audioBufferToWav_eq:
  assumes "valid_buffer b"
  shows "audioBufferToWav b =
    Inr (wavHeader (sampleRate b) (numberOfChannels b) (dataLength b) @ interleaved b)"
proof -
  let ?n = "numberOfChannels b"
  let ?len = "dataLength b"
  let ?hdr = "wavHeader (sampleRate b) ?n ?len"
  let ?view1 = "?hdr @ replicate ?len 0"
  from assms have ne: "channelData b \<noteq> []"
    and all: "list_all (\<lambda>c. length c = bufferLength b) (channelData b)"
    by (simp_all add: valid_buffer_def)
  have hdr: "writeHeader b ?len (ArrayBuffer (44 + ?len)) = Inr ?view1"
    using writeHeader_splice [of "ArrayBuffer (44 + ?len)" b ?len]
    by (simp add: ArrayBuffer_def)
  have l1: "length ?view1 = 44 + ?len"
    by (simp add: length_wavHeader)
  have "0 + length (channelData b) \<le> ?n"
    by (simp add: numberOfChannels_def)
  moreover have "44 + bufferLength b * ?n * 2 \<le> length ?view1"
    by (simp add: length_wavHeader dataLength_def)
  ultimately obtain view' where
    run: "writeChannels ?n 0 (channelData b) ?view1 = Inr view'" and
    len: "length view' = length ?view1" and
    nth: "\<forall>k<length ?view1. view' ! k =
       (if 44 \<le> k \<and> 0 \<le> (k - 44) div 2 mod ?n \<and>
           (k - 44) div 2 mod ?n < 0 + length (channelData b) \<and>
           (k - 44) div 2 div ?n < bufferLength b
        then sampleByte (channelData b ! ((k - 44) div 2 mod ?n - 0) ! ((k - 44) div 2 div ?n))
               ((k - 44) mod 2)
        else ?view1 ! k)"
    using writeChannels_nth [OF _ all, of 0 ?n ?view1] by blast
  have "view' = ?hdr @ interleaved b"
  proof (rule nth_equalityI)
    show "length view' = length (?hdr @ interleaved b)"
      using len by (simp add: length_wavHeader length_interleaved)
  next
    fix k assume "k < length view'"
    with len have k: "k < length ?view1" by simp
    note a = nth [rule_format, OF k]
    show "view' ! k = (?hdr @ interleaved b) ! k"
    proof (cases "k < 44")
      case True
      with a show ?thesis
        by (simp add: nth_append length_wavHeader)
    next
      case False
      then have ge: "44 \<le> k" by simp
      from k l1 ge have q: "k - 44 < ?len" by simp
      from ne have n: "0 < ?n" by (simp add: numberOfChannels_def)
      have "(k - 44) div 2 < bufferLength b * ?n"
        using q by (simp add: dataLength_def) 
      then have fr: "(k - 44) div 2 div ?n < bufferLength b"
        using n by (simp add: less_mult_imp_div_less)
      have ch: "(k - 44) div 2 mod ?n < length (channelData b)"
        using n by (simp add: numberOfChannels_def)
      have "view' ! k = sampleByte (channelData b ! ((k - 44) div 2 mod ?n) ! ((k - 44) div 2 div ?n))
               ((k - 44) mod 2)"
        using a ge fr ch by simp
      also have "\<dots> = interleaved b ! (k - 44)"
        using interleaved_nth [OF q ne] by simp
      finally show ?thesis
        using False by (simp add: nth_append length_wavHeader)
    qed
  qed
  with run hdr show ?thesis
    by (simp add: audioBufferToWav_def Let_def and_then_Inr dataLength_def)
qed

subsection \<open>Quantization\<close>

lemma clampSample_Num: "clampSample (Num r) = Num (max (-1) (min 1 r))"
  by (simp add: clampSample_def)

lemma clampSample_nonfinite:
  "clampSample PosInf = Num 1" "clampSample NegInf = Num (-1)" "clampSample NaN = NaN"
  by (simp_all add: clampSample_def)

lemma scaleSample_Num:
  "scaleSample (Num c) = Num (if c < 0 then c * 32768 else c * 32767)"
  by (simp add: scaleSample_def)

lemma trunc_scaled_bounds:
  fixes c :: rat
  assumes "-1 \<le> c" and "c \<le> 1"
  shows "-32768 \<le> Math_trunc (if c < 0 then c * 32768 else c * 32767)"
    and "Math_trunc (if c < 0 then c * 32768 else c * 32767) \<le> 32767"
proof -
  show "-32768 \<le> Math_trunc (if c < 0 then c * 32768 else c * 32767)"
  proof (cases "c < 0")
    case True
    then have "c * 32768 < 0" by (simp add: mult_less_0_iff)
    moreover have "(-32768 :: rat) \<le> c * 32768" using assms(1) by simp
    then have "(-32768 :: int) \<le> \<lceil>c * 32768\<rceil>"
      by (simp add: le_ceiling_iff)
    ultimately show ?thesis using True by (simp add: Math_trunc_def)
  next
    case False
    then have "0 \<le> c * 32767" by simp
    then have "(0::int) \<le> \<lfloor>c * 32767\<rfloor>" by simp
    then show ?thesis using False by (simp add: Math_trunc_def)
  qed
  show "Math_trunc (if c < 0 then c * 32768 else c * 32767) \<le> 32767"
  proof (cases "c < 0")
    case True
    then have neg: "c * 32768 < 0" by (simp add: mult_less_0_iff)
    then have "\<lceil>c * 32768\<rceil> \<le> 0" by (simp add: ceiling_le_iff)
    then show ?thesis using True neg by (simp add: Math_trunc_def)
  next
    case False
    have "c * 32767 \<le> 32767" using assms(2) by simp
    then have "\<lfloor>c * 32767\<rfloor> \<le> 32767" by (simp add: floor_le_iff)
    then show ?thesis using False by (simp add: Math_trunc_def)
  qed
qed

lemma scaled_in_range:
  "-32768 \<le> ToIntegerOrZero (scaleSample (clampSample x)) \<and>
   ToIntegerOrZero (scaleSample (clampSample x)) \<le> 32767"
proof (cases x)
  case (Num r)
  have "-1 \<le> max (-1) (min 1 r)" "max (-1) (min 1 r) \<le> 1"
    by simp_all
  from trunc_scaled_bounds [OF this] show ?thesis
    by (simp only: Num clampSample_Num scaleSample_Num ToIntegerOrZero.simps)
next
  case PosInf
  then show ?thesis
    by (simp add: clampSample_nonfinite scaleSample_Num Math_trunc_def)
next
  case NegInf
  then show ?thesis
    by (simp add: clampSample_nonfinite scaleSample_Num Math_trunc_def)
next
  case NaN
  then show ?thesis
    by (simp add: clampSample_nonfinite scaleSample_def)
qed

lemma ToInt16_in_range:
  assumes "-32768 \<le> ToIntegerOrZero v" and "ToIntegerOrZero v \<le> 32767"
  shows "ToInt16 v = ToIntegerOrZero v"
proof (cases "0 \<le> ToIntegerOrZero v")
  case True
  with assms have "ToIntegerOrZero v mod 65536 = ToIntegerOrZero v"
    by simp
  with assms show ?thesis
    by (simp add: ToInt16_def Let_def)
next
  case False
  with assms have "(ToIntegerOrZero v + 65536) mod 65536 = ToIntegerOrZero v + 65536"
    by (intro mod_pos_pos_trivial) simp_all
  then have "ToIntegerOrZero v mod 65536 = ToIntegerOrZero v + 65536"
    by simp
  with assms False show ?thesis
    by (simp add: ToInt16_def Let_def)
qed

lemma encodeSample_no_wrap:
  "encodeSample x = ToIntegerOrZero (scaleSample (clampSample x))"
  using scaled_in_range [of x] by (simp add: encodeSample_def ToInt16_in_range)

lemma encodeSample_Num:
  "encodeSample (Num r) =
     Math_trunc (if max (-1) (min 1 r) < 0 then max (-1) (min 1 r) * 32768
                 else max (-1) (min 1 r) * 32767)"
  by (simp only: encodeSample_no_wrap clampSample_Num scaleSample_Num ToIntegerOrZero.simps)

lemma encodeSample_values:
  "encodeSample (Num 1) = 32767" "encodeSample (Num (-1)) = -32768" "encodeSample (Num 0) = 0"
  "encodeSample PosInf = 32767" "encodeSample NegInf = -32768" "encodeSample NaN = 0"
  by (simp_all add: encodeSample_no_wrap clampSample_Num clampSample_nonfinite scaleSample_Num
      scaleSample_def Math_trunc_def)

lemma encodeSample_half: "encodeSample (Num (1 / 2)) = 16383"
proof -
  have "\<lfloor>(32767 :: rat) / 2\<rfloor> = 16383"
    by (rule floor_unique) simp_all
  then show ?thesis
    by (simp add: encodeSample_Num Math_trunc_def)
qed

lemma valid_exampleBuffer: "valid_buffer exampleBuffer"
  by (simp add: valid_buffer_def exampleBuffer_def)

lemma interleaved_exampleBuffer:
  "interleaved exampleBuffer = [255, 127, 0, 0, 0, 128, 255, 63]"
proof -
  have "[0..<2] = [0, Suc 0]"
    by (simp add: numeral_2_eq_2)
  then show ?thesis
    by (simp add: interleaved_def exampleBuffer_def encodeSample_values
        encodeSample_half int16le_def le16_def)
qed

lemma bytesAt_header:
  assumes "offset + n \<le> 44"
  shows "bytesAt (wavHeader r c d @ rest) offset n = take n (drop offset (wavHeader r c d))"
  using assms by (simp add: bytesAt_def length_wavHeader)

subsection \<open>Range of the scaled sample, decoding of header fields\<close>

lemma scaled_clamped_cases:
  "scaleSample (clampSample (Num r)) =
     Num (if max (-1) (min 1 r) < 0 then max (-1) (min 1 r) * 32768
          else max (-1) (min 1 r) * 32767)"
  "scaleSample (clampSample PosInf) = Num 32767"
  "scaleSample (clampSample NegInf) = Num (-32768)"
  "scaleSample (clampSample NaN) = NaN"
  by (simp_all add: clampSample_Num clampSample_nonfinite scaleSample_Num)
     (simp add: scaleSample_def)

lemma scaled_not_outside: "\<not> outsideInt16 (scaleSample (clampSample x))"
proof (cases x)
  case (Num r)
  let ?c = "max (-1) (min 1 r)"
  have c: "-1 \<le> ?c" "?c \<le> 1" by simp_all
  show ?thesis
  proof (cases "?c < 0")
    case True
    have "(-32768 :: rat) \<le> ?c * 32768" using c(1) by linarith
    moreover have "?c * 32768 \<le> 32767" using True by linarith
    ultimately show ?thesis
      using True by (simp only: Num scaled_clamped_cases outsideInt16.simps if_True) linarith
  next
    case False
    have "?c * 32767 \<le> 32767" using c(2) by linarith
    moreover have "(-32768 :: rat) \<le> ?c * 32767" using False by linarith
    ultimately show ?thesis
      using False by (simp only: Num scaled_clamped_cases outsideInt16.simps if_False) linarith
  qed
qed (simp_all add: scaled_clamped_cases)

lemma getUint16_le16: "v < 65536 \<Longrightarrow> getUint16 (pre @ le16 v @ post) (length pre) = v"
  by (simp add: getUint16_def le16_def nth_append)

lemma getUint32_le32:
  assumes "v < 4294967296"
  shows "getUint32 (pre @ le32 v @ post) (length pre) = v"
proof -
  have "v div 16777216 < 256"
    using assms by simp
  then have "v div 16777216 mod 256 = v div 16777216"
    by simp
  moreover have "v mod 256 + 256 * (v div 256 mod 256) + 65536 * (v div 65536 mod 256) +
      16777216 * (v div 16777216) = v"
  proof -
    have a: "v = 256 * (v div 256) + v mod 256"
      by simp
    have "v div 256 div 256 = v div 65536" "v div 65536 div 256 = v div 16777216"
      by (simp_all add: div_mult2_eq [symmetric])
    then have b: "v div 256 = 256 * (v div 65536) + v div 256 mod 256"
      and c: "v div 65536 = 256 * (v div 16777216) + v div 65536 mod 256"
      using mult_div_mod_eq [of 256 "v div 256"] mult_div_mod_eq [of 256 "v div 65536"]
      by simp_all
    from a b c show ?thesis
      by linarith
  qed
  ultimately show ?thesis
    by (simp add: getUint32_def le32_def nth_append)
qed

lemma header_fields_decode:
  "getUint16 (wavHeader r c d @ rest) 22 = getUint16 ([] @ le16 c @ []) 0"
  "getUint32 (wavHeader r c d @ rest) 24 = getUint32 ([] @ le32 r @ []) 0"
  "getUint32 (wavHeader r c d @ rest) 40 = getUint32 ([] @ le32 d @ []) 0"
  by (simp_all add: getUint16_def getUint32_def wavHeader_def le16_def le32_def)

lemma valid_hugeBuffer: "valid_buffer hugeBuffer"
  by (simp add: valid_buffer_def hugeBuffer_def)

section \<open>Facts about rounding to a double\<close>

lemma floorLog2_bounds:
  assumes "0 < a"
  shows "2 powi floorLog2 a \<le> a \<and> a < 2 powi (floorLog2 a + 1)"
proof (cases "1 \<le> a")
  case True
  define n where "n = nat \<lfloor>a\<rfloor>"
  define k where "k = floorlog 2 n"
  from True have n: "0 < n" "int n = \<lfloor>a\<rfloor>"
    by (simp_all add: n_def)
  from floorlog_bounds [of n 2] n(1) have b: "2 ^ (k - 1) \<le> n" "n < 2 ^ k"
    by (simp_all add: k_def)
  from n(1) have k: "0 < k"
    by (simp add: k_def floorlog_def)
  have e: "floorLog2 a = int k - 1"
    using True by (simp add: floorLog2_def n_def k_def)
  have "(2::rat) powi (int k - 1) = 2 ^ (k - 1)"
    using k by (simp add: power_int_def nat_diff_distrib)
  also have "\<dots> = of_int (2 ^ (k - 1))"
    by simp
  also have "\<dots> \<le> of_int \<lfloor>a\<rfloor>"
    using b(1) n(2) by (metis of_int_le_iff of_nat_le_iff of_nat_numeral of_nat_power)
  also have "\<dots> \<le> a"
    by simp
  finally have lower: "2 powi (int k - 1) \<le> a" .
  have "int n < int (2 ^ k)"
    using b(2) by (simp only: of_nat_less_iff)
  then have "\<lfloor>a\<rfloor> + 1 \<le> 2 ^ k"
    using n(2) by simp
  then have "(of_int (\<lfloor>a\<rfloor> + 1) :: rat) \<le> of_int (2 ^ k)"
    by (simp only: of_int_le_iff)
  then have "a < 2 ^ k"
    by (simp add: floor_less_iff less_le_trans) linarith
  then have upper: "a < 2 powi (int k - 1 + 1)"
    by simp
  from lower upper show ?thesis
    by (simp only: e)
next
  case False
  with assms have a: "0 < a" "a < 1" by simp_all
  define m where "m = nat \<lceil>1 / a\<rceil>"
  define k where "k = ceillog2 m"
  from a have inv: "1 < 1 / a"
    by simp
  then have "1 < \<lceil>1 / a\<rceil>"
    by (simp add: less_ceiling_iff)
  then have m: "1 < m" "int m = \<lceil>1 / a\<rceil>"
    by (simp_all add: m_def)
  from m(1) have mk: "m \<le> 2 ^ k" and km: "2 ^ k < 2 * m"
    using ceillog2_le_iff [of m k] ceillog2_ge_iff [of m k] by (simp_all add: k_def)
  from m(1) mk have k: "0 < k"
    by (cases k) simp_all
  have e: "floorLog2 a = - int k"
    using False by (simp add: floorLog2_def m_def k_def)
  have "1 / a \<le> of_int \<lceil>1 / a\<rceil>"
    by simp
  also have "\<dots> = of_nat m"
    using m(2) by (metis of_int_of_nat_eq)
  also have "\<dots> \<le> of_nat (2 ^ k)"
    using mk by (simp only: of_nat_le_iff)
  finally have "1 / a \<le> 2 ^ k"
    by simp
  then have "1 \<le> 2 ^ k * a"
    using a(1) by (simp add: field_simps)
  then have lower: "2 powi (- int k) \<le> a"
    by (simp add: power_int_minus field_simps)
  from km k have "2 ^ (k - 1) < m"
    by (cases k) simp_all
  then have "(2::int) ^ (k - 1) < \<lceil>1 / a\<rceil>"
    using m(2) by (metis of_nat_less_iff of_nat_numeral of_nat_power)
  then have "(2::int) ^ (k - 1) \<le> \<lceil>1 / a\<rceil> - 1"
    by simp
  then have "(of_int (2 ^ (k - 1)) :: rat) \<le> of_int (\<lceil>1 / a\<rceil> - 1)"
    by (simp only: of_int_le_iff)
  also have "\<dots> < 1 / a"
    by simp linarith
  finally have "(2::rat) ^ (k - 1) * a < 1"
    using a(1) by (simp add: field_simps)
  then have "a < 1 / 2 ^ (k - 1)"
    by (simp add: field_simps)
  also have "\<dots> = 2 powi (- int k + 1)"
    using k by (cases k) (simp_all add: power_int_def nat_diff_distrib power_one_over)
  finally have upper: "a < 2 powi (- int k + 1)" .
  from lower upper show ?thesis
    by (simp only: e)
qed

lemma floorLog2_eqI:
  assumes "2 powi e \<le> a" and "a < 2 powi (e + 1)"
  shows "floorLog2 a = e"
proof -
  have "0 < (2::rat) powi e" by simp
  with assms(1) have pos: "0 < a" by linarith
  note b = floorLog2_bounds [OF pos]
  have u: "(2::rat) powi floorLog2 a < 2 powi (e + 1)"
    using b assms(2) by linarith
  have "\<not> e + 1 \<le> floorLog2 a"
  proof
    assume "e + 1 \<le> floorLog2 a"
    then have "(2::rat) powi (e + 1) \<le> 2 powi floorLog2 a"
      by (rule power_int_increasing) simp
    with u show False by simp
  qed
  moreover have l: "(2::rat) powi e < 2 powi (floorLog2 a + 1)"
    using b assms(1) by linarith
  have "\<not> floorLog2 a + 1 \<le> e"
  proof
    assume "floorLog2 a + 1 \<le> e"
    then have "(2::rat) powi (floorLog2 a + 1) \<le> 2 powi e"
      by (rule power_int_increasing) simp
    with l show False by simp
  qed
  ultimately show ?thesis
    by simp
qed

lemma roundHalfEven_of_int: "roundHalfEven (of_int n) = n"
  by (simp add: roundHalfEven_def)

lemma roundHalfEven_down:
  assumes "of_int f \<le> s" and "s < of_int f + 1 / 2"
  shows "roundHalfEven s = f"
proof -
  have "\<lfloor>s\<rfloor> = f"
    using assms by (intro floor_unique) simp_all
  with assms(2) show ?thesis
    by (simp add: roundHalfEven_def)
qed

lemma roundToDouble_exact:
  assumes x: "x = of_int n * 2 powi q" and n: "\<bar>n\<bar> < 2 ^ 53" and q: "- 1074 \<le> q"
    and fin: "\<bar>x\<bar> < 2 powi 1024"
  shows "roundToDouble x = Num x"
proof (cases "x = 0")
  case True
  then show ?thesis by (simp add: roundToDouble_def)
next
  case False
  define a where "a = \<bar>x\<bar>"
  define Q where "Q = max (floorLog2 a - 52) (- 1074)"
  from False have pos: "0 < a" by (simp add: a_def)
  have a: "a = of_int \<bar>n\<bar> * 2 powi q"
    by (simp add: a_def x abs_mult)
  have "(of_int \<bar>n\<bar> :: rat) < of_int (2 ^ 53)"
    using n by (simp only: of_int_less_iff)
  then have "a < 2 ^ 53 * 2 powi q"
    unfolding a by (simp add: mult_strict_right_mono)
  also have "\<dots> = 2 powi (53 + q)"
    by (simp add: power_int_add)
  finally have "(2::rat) powi floorLog2 a < 2 powi (53 + q)"
    using floorLog2_bounds [OF pos] by linarith
  have "\<not> 53 + q \<le> floorLog2 a"
  proof
    assume "53 + q \<le> floorLog2 a"
    then have "(2::rat) powi (53 + q) \<le> 2 powi floorLog2 a"
      by (rule power_int_increasing) simp
    with \<open>(2::rat) powi floorLog2 a < 2 powi (53 + q)\<close> show False by simp
  qed
  with q have Qq: "Q \<le> q"
    by (simp add: Q_def)
  define k where "k = \<bar>n\<bar> * 2 ^ nat (q - Q)"
  have "(2::rat) powi q = 2 powi (q - Q) * 2 powi Q"
    by (simp add: power_int_add [symmetric])
  also have "(2::rat) powi (q - Q) = 2 ^ nat (q - Q)"
    using Qq by (simp add: power_int_def)
  finally have split: "(2::rat) powi q = 2 ^ nat (q - Q) * 2 powi Q" .
  have quot: "a / 2 powi Q = of_int k"
    by (simp add: a split k_def)
  have y: "of_int (roundHalfEven (a / 2 powi Q)) * 2 powi Q = a"
    by (simp only: quot roundHalfEven_of_int) (simp add: a split k_def)
  have small: "\<not> 2 powi 1024 \<le> a"
    using fin by (simp add: a_def)
  have "roundToDouble x =
      (if (2::rat) powi 1024 \<le> of_int (roundHalfEven (a / 2 powi Q)) * 2 powi Q
       then (if x < 0 then NegInf else PosInf)
       else Num (if x < 0 then - (of_int (roundHalfEven (a / 2 powi Q)) * 2 powi Q)
                 else of_int (roundHalfEven (a / 2 powi Q)) * 2 powi Q))"
    using False by (simp only: roundToDouble_def Let_def a_def Q_def if_False)
  also have "\<dots> = Num (if x < 0 then - a else a)"
    using small by (simp only: y if_False)
  also have "(if x < 0 then - a else a) = x"
    by (simp add: a_def)
  finally show ?thesis .
qed

lemma roundToDouble_eval:
  assumes "0 < x" and "floorLog2 x = e" and "max (e - 52) (- 1074) = q"
    and "roundHalfEven (x / 2 powi q) = k" and "of_int k * 2 powi q = y" and "y < 2 powi 1024"
  shows "roundToDouble x = Num y"
  using assms by (simp add: roundToDouble_def Let_def)

lemma roundToDouble_never_NaN: "roundToDouble x \<noteq> NaN"
  by (simp add: roundToDouble_def Let_def)

text \<open>The double nearest to 0.1, and its product with 44100.\<close>

lemma roundToDouble_tenth_44100:
  "roundToDouble (3602879701896397 / 36028797018963968 * 44100) = Num 4410"
proof (rule roundToDouble_eval [where e = 12 and q = "- 40" and k = 4848846278492160])
  show "floorLog2 (3602879701896397 / 36028797018963968 * 44100) = 12"
    by (rule floorLog2_eqI) simp_all
  show "roundHalfEven (3602879701896397 / 36028797018963968 * 44100 / 2 powi (- 40)) =
      4848846278492160"
    by (rule roundHalfEven_down) (simp_all add: power_int_minus)
qed (simp_all add: power_int_minus)

lemma double_examples:
  "roundToDouble 1 = Num 1" "roundToDouble 2 = Num 2" "roundToDouble 44100 = Num 44100"
  "roundToDouble (11025 / 2) = Num (11025 / 2)" "roundToDouble (1 / 8) = Num (1 / 8)"
  "roundToDouble 4410000000 = Num 4410000000"
  "roundToDouble (3602879701896397 / 36028797018963968) = Num (3602879701896397 / 36028797018963968)"
proof -
  show "roundToDouble 1 = Num 1"
    by (rule roundToDouble_exact [of _ 1 0]) simp_all
  show "roundToDouble 2 = Num 2"
    by (rule roundToDouble_exact [of _ 2 0]) simp_all
  show "roundToDouble 44100 = Num 44100"
    by (rule roundToDouble_exact [of _ 44100 0]) simp_all
  show "roundToDouble (11025 / 2) = Num (11025 / 2)"
    by (rule roundToDouble_exact [of _ 11025 "- 1"]) (simp_all add: power_int_minus)
  show "roundToDouble (1 / 8) = Num (1 / 8)"
    by (rule roundToDouble_exact [of _ 1 "- 3"]) (simp_all add: power_int_minus)
  show "roundToDouble 4410000000 = Num 4410000000"
    by (rule roundToDouble_exact [of _ 4410000000 0]) simp_all
  show "roundToDouble (3602879701896397 / 36028797018963968) =
      Num (3602879701896397 / 36028797018963968)"
    by (rule roundToDouble_exact [of _ 3602879701896397 "- 55"]) (simp_all add: power_int_minus)
qed

section \<open>Facts about the renderer\<close>

subsection \<open>Rendering\<close>

lemma renderQuantum_silent: "renderQuantum c = replicate c (replicate 128 (Num 0))"
  by (simp add: renderQuantum_def SoundfontProcessor_process_def)

lemma concat_replicate_replicate:
  "concat (replicate q (replicate k z)) = replicate (q * k) z"
  by (induction q) (simp_all add: replicate_add)

lemma quanta_cover: "(l::nat) \<le> (l + 127) div 128 * 128"
proof -
  have "(l + 127) div 128 * 128 + (l + 127) mod 128 = l + 127"
    by (rule div_mult_mod_eq)
  moreover have "(l + 127) mod 128 < 128"
    by simp
  ultimately show ?thesis
    by linarith
qed

lemma startRendering_silent:
  "startRendering ctx node =
     \<lparr>sampleRate = offlineSampleRate ctx, bufferLength = offlineLength ctx,
      channelData = replicate (offlineChannels ctx) (replicate (offlineLength ctx) (Num 0))\<rparr>"
  using quanta_cover [of "offlineLength ctx"]
  by (simp add: startRendering_def renderQuantum_silent concat_replicate_replicate min_def)

subsection \<open>The length conversion\<close>


lemma toUnsignedLong_of_nat:
  "n \<le> 4294967295 \<Longrightarrow> toUnsignedLong (Num (of_nat n)) = Inr n"
  by (simp add: toUnsignedLong_def Math_trunc_def)

lemma toUnsignedLong_too_large:
  "4294967295 < n \<Longrightarrow> toUnsignedLong (Num (of_nat n)) = Inl TypeError"
  by (simp add: toUnsignedLong_def Math_trunc_def)

subsection \<open>The maximum of the note ends\<close>

lemma Math_max_swap: "Math_max (Math_max acc a) b = Math_max (Math_max acc b) a"
  by (cases acc; cases a; cases b) (simp_all add: max.left_commute max.commute max.assoc)

lemma fold_Math_max_mset:
  assumes "mset xs = mset ys"
  shows "fold (\<lambda>n acc. Math_max acc (noteEnd n)) xs = fold (\<lambda>n acc. Math_max acc (noteEnd n)) ys"
  by (rule fold_multiset_equiv [OF _ assms]) (simp add: fun_eq_iff Math_max_swap)

lemma Midi_duration_mset:
  assumes "mset (events m') = mset (events m)"
  shows "Midi_duration m' = Midi_duration m"
proof -
  from assms have "events m' = [] \<longleftrightarrow> events m = []"
    by (metis mset_zero_iff)
  then show ?thesis
    using fold_Math_max_mset [OF assms] by (simp add: Midi_duration_def)
qed

lemma noteEnd_not_NaN: "noteEnd n \<noteq> NaN"
  by (simp add: noteEnd_def roundToDouble_never_NaN)

lemma Math_max_cases:
  assumes "a \<noteq> NaN" and "b \<noteq> NaN"
  shows "Math_max a b \<noteq> NaN" "Math_max a b = a \<or> Math_max a b = b"
    "\<not> js_less (Math_max a b) a" "\<not> js_less (Math_max a b) b"
  using assms by (cases a; cases b; simp add: max_def)+

lemma js_less_trans_le:
  assumes "\<not> js_less b a" and "\<not> js_less c b" and "a \<noteq> NaN" and "b \<noteq> NaN" and "c \<noteq> NaN"
  shows "\<not> js_less c a"
  using assms by (cases a; cases b; cases c) simp_all

lemma fold_Math_max_is_max:
  assumes "acc \<noteq> NaN"
  shows "fold (\<lambda>n a. Math_max a (noteEnd n)) ns acc \<noteq> NaN \<and>
    (fold (\<lambda>n a. Math_max a (noteEnd n)) ns acc = acc \<or>
     fold (\<lambda>n a. Math_max a (noteEnd n)) ns acc \<in> noteEnd ` set ns) \<and>
    \<not> js_less (fold (\<lambda>n a. Math_max a (noteEnd n)) ns acc) acc \<and>
    list_all (\<lambda>n. \<not> js_less (fold (\<lambda>n a. Math_max a (noteEnd n)) ns acc) (noteEnd n)) ns"
  using assms
proof (induction ns arbitrary: acc)
  case Nil
  then show ?case by (cases acc) simp_all
next
  case (Cons n ns)
  let ?acc = "Math_max acc (noteEnd n)"
  let ?r = "fold (\<lambda>n a. Math_max a (noteEnd n)) ns ?acc"
  note m = Math_max_cases [OF Cons.prems noteEnd_not_NaN [of n]]
  note ih = Cons.IH [OF m(1)]
  from ih have r: "?r \<noteq> NaN" and ge: "\<not> js_less ?r ?acc"
    and rest: "list_all (\<lambda>n. \<not> js_less ?r (noteEnd n)) ns"
    by simp_all
  have "\<not> js_less ?r acc"
    using js_less_trans_le [OF m(3) ge Cons.prems m(1) r] .
  moreover have "\<not> js_less ?r (noteEnd n)"
    using js_less_trans_le [OF m(4) ge noteEnd_not_NaN m(1) r] .
  moreover have "?r = acc \<or> ?r \<in> noteEnd ` set (n # ns)"
    using ih m(2) by auto
  ultimately show ?case
    using r rest by simp
qed

lemma Midi_duration_is_max:
  assumes "events m \<noteq> []"
  shows "Midi_duration m \<in> noteEnd ` set (events m) \<and>
    list_all (\<lambda>n. \<not> js_less (Midi_duration m) (noteEnd n)) (events m)"
proof -
  let ?r = "fold (\<lambda>n a. Math_max a (noteEnd n)) (events m) NegInf"
  have f: "?r \<noteq> NaN" "?r = NegInf \<or> ?r \<in> noteEnd ` set (events m)"
    "list_all (\<lambda>n. \<not> js_less ?r (noteEnd n)) (events m)"
    using fold_Math_max_is_max [of NegInf "events m"] by simp_all
  have "?r \<in> noteEnd ` set (events m)"
  proof (cases "?r = NegInf")
    case False
    with f(2) show ?thesis by simp
  next
    case True
    from assms obtain n where n: "n \<in> set (events m)"
      by (cases "events m") auto
    with f(3) have "\<not> js_less ?r (noteEnd n)"
      by (simp add: list_all_iff)
    with True noteEnd_not_NaN [of n] have "noteEnd n = NegInf"
      by (cases "noteEnd n") simp_all
    with n True show ?thesis
      by (metis image_eqI)
  qed
  with f(3) assms show ?thesis
    by (simp add: Midi_duration_def)
qed

subsection \<open>The posted messages and the result of a run\<close>

lemma port_scheduleNotes:
  "port (scheduleNotes node ns) = port node @ concat (map noteMessages ns)"
  by (induction ns arbitrary: node) (simp_all add: postMessage_def noteMessages_def Let_def)

lemma port_scheduleTracks:
  "port (scheduleTracks node ts) =
     port node @ concat (map noteMessages (concat (map trackNotes ts)))"
  by (induction ts arbitrary: node) (simp_all add: port_scheduleNotes)

lemma port_createSynthNode:
  "port (createSynthNode st m) =
     (case soundfontDataRef st of Some data \<Rightarrow> [LoadSoundfont data] | None \<Rightarrow> []) @
     concat (map noteMessages (events m))"
  by (simp add: createSynthNode_def port_scheduleTracks events_def postMessage_def Let_def
      split: option.split)

lemma renderMidi_cases:
  "renderMidi st =
     (case (audioContextRef st, midiDataRef st) of
        (Some ctx, Some m) \<Rightarrow>
          (case toUnsignedLong (totalFrames ctx m) of
             Inl e \<Rightarrow> Inl e
           | Inr l \<Rightarrow>
               if l = 0 \<or> contextSampleRate ctx = 0 then Inl NotSupportedError
               else Inr \<lparr>sampleRate = contextSampleRate ctx, bufferLength = l,
                         channelData = [replicate l (Num 0), replicate l (Num 0)]\<rparr>)
      | _ \<Rightarrow> Inl (Error ''Audio context or MIDI data not initialized''))"
  by (simp add: renderMidi_def new_OfflineAudioContext_def and_then_def
      startRendering_silent numeral_2_eq_2 split: option.split sum.split)

lemma interleaved_silent:
  "interleaved \<lparr>sampleRate = r, bufferLength = l,
       channelData = [replicate l (Num 0), replicate l (Num 0)]\<rparr> = replicate (l * 2 * 2) 0"
proof -
  have "concat (map (\<lambda>j. concat (map (\<lambda>c. int16le (encodeSample (c ! j)))
          [replicate l (Num 0), replicate l (Num 0)])) [0..<l]) =
        concat (map (\<lambda>j. [0, 0, 0, 0]) [0..<l])"
    by (rule arg_cong [where f = concat], rule map_cong)
       (simp_all add: encodeSample_values int16le_def le16_def)
  also have "\<dots> = concat (replicate l (replicate 4 0))"
    by (simp add: map_replicate_const numeral_eq_Suc)
  also have "\<dots> = replicate (l * 2 * 2) 0"
    by (simp add: concat_replicate_replicate)
  finally show ?thesis
    by (simp add: interleaved_def)
qed

lemma processMidiWithSoundfont_cases:
  "processMidiWithSoundfont st =
     (case (audioContextRef st, midiDataRef st) of
        (Some ctx, Some m) \<Rightarrow>
          (case toUnsignedLong (totalFrames ctx m) of
             Inl e \<Rightarrow> Inl e
           | Inr l \<Rightarrow>
               if l = 0 \<or> contextSampleRate ctx = 0 then Inl NotSupportedError
               else Inr (silentWav (contextSampleRate ctx) l))
      | _ \<Rightarrow> Inl (Error ''Audio context or MIDI data not initialized''))"
proof -
  have enc: "audioBufferToWav \<lparr>sampleRate = r, bufferLength = l,
       channelData = [replicate l (Num 0), replicate l (Num 0)]\<rparr> = Inr (silentWav r l)" for r l
  proof -
    let ?b = "\<lparr>sampleRate = r, bufferLength = l,
       channelData = [replicate l (Num 0), replicate l (Num 0)]\<rparr>"
    have "valid_buffer ?b"
      by (simp add: valid_buffer_def)
    moreover have "numberOfChannels ?b = 2"
      by (simp add: numberOfChannels_def)
    ultimately show ?thesis
      using audioBufferToWav_eq [of ?b]
      by (simp add: interleaved_silent silentWav_def dataLength_def)
  qed
  show ?thesis
    by (simp add: processMidiWithSoundfont_def renderMidi_cases and_then_Inr and_then_Inl enc
        split: option.split sum.split)
qed

lemma processMidi_frames:
  assumes "audioContextRef st = Some ctx" and "midiDataRef st = Some m"
    and "totalFrames ctx m = Num (of_nat l)" and "0 < l" and "l \<le> 4294967295"
    and "0 < contextSampleRate ctx"
  shows "renderMidi st =
      Inr \<lparr>sampleRate = contextSampleRate ctx, bufferLength = l,
           channelData = [replicate l (Num 0), replicate l (Num 0)]\<rparr>"
    and "processMidiWithSoundfont st = Inr (silentWav (contextSampleRate ctx) l)"
  using assms
  by (simp_all add: renderMidi_cases processMidiWithSoundfont_cases toUnsignedLong_of_nat)

lemma events_simps:
  "events \<lparr>tracks = []\<rparr> = []"
  "events \<lparr>tracks = t # ts\<rparr> = trackNotes t @ events \<lparr>tracks = ts\<rparr>"
  by (simp_all add: events_def)

lemma silentWav_facts:
  "length (silentWav r l) = 44 + l * 2 * 2"
  "drop 44 (silentWav r l) = replicate (l * 2 * 2) 0"
  "bytesAt (silentWav r l) 22 2 = [2, 0]"
  by (simp_all add: silentWav_def length_wavHeader bytesAt_header)
     (simp add: wavHeader_def le16_def le32_def)

lemma scenarioA4_frames:
  "totalFrames \<lparr>contextSampleRate = 44100\<rparr>
     \<lparr>tracks = [\<lparr>trackNotes = [\<lparr>midi = 69, velocity = 1, time = 0, duration = 1\<rparr>]\<rparr>]\<rparr>
   = Num (of_nat 44100)"
  by (simp add: totalFrames_def Midi_duration_def events_simps noteEnd_def double_examples)

lemma zeroVelocity_frames:
  "totalFrames \<lparr>contextSampleRate = 44100\<rparr> zeroVelocityMidi = Num (of_nat 44100)"
  by (simp add: totalFrames_def Midi_duration_def events_simps noteEnd_def double_examples
      zeroVelocityMidi_def)

lemma tinyState_frames:
  "totalFrames \<lparr>contextSampleRate = 44100\<rparr>
     \<lparr>tracks = [\<lparr>trackNotes = [\<lparr>midi = 60, velocity = 1 / 2, time = 0, duration = 1 / 32768\<rparr>]\<rparr>]\<rparr>
   = Num (of_nat 2)"
proof -
  have a: "roundToDouble (1 / 32768) = Num (1 / 32768)"
    by (rule roundToDouble_exact [of _ 1 "- 15"]) (simp_all add: power_int_minus)
  have b: "roundToDouble (11025 / 8192) = Num (11025 / 8192)"
    by (rule roundToDouble_exact [of _ 11025 "- 13"]) (simp_all add: power_int_minus)
  have c: "\<lceil>11025 / 8192 :: rat\<rceil> = 2"
    by (rule ceiling_unique) simp_all
  show ?thesis
    by (simp add: totalFrames_def Midi_duration_def events_simps noteEnd_def a b c)
qed

lemma tinyState_runs: "processMidiWithSoundfont tinyState = Inr (silentWav 44100 2)"
  using processMidi_frames(2) [OF _ _ tinyState_frames, of tinyState]
  by (simp add: tinyState_def)

lemma tenth_events:
  "events tenthMidi =
     [\<lparr>midi = 60, velocity = 1, time = 0, duration = 1 / 16\<rparr>,
      \<lparr>midi = 64, velocity = 1, time = 0, duration = 3602879701896397 / 36028797018963968\<rparr>]"
  by (simp add: tenthMidi_def events_simps)

lemma tenth_duration:
  "Midi_duration tenthMidi = Num (3602879701896397 / 36028797018963968)"
proof -
  have a: "roundToDouble (1 / 16) = Num (1 / 16)"
    by (rule roundToDouble_exact [of _ 1 "- 4"]) (simp_all add: power_int_minus)
  show ?thesis
    by (simp add: Midi_duration_def tenth_events noteEnd_def a double_examples)
qed

lemma tenth_frames:
  "totalFrames \<lparr>contextSampleRate = 44100\<rparr> tenthMidi = Num (of_nat 4410)"
proof -
  have "3602879701896397 / 36028797018963968 * 44100 =
      (39721748713407776925 / 9007199254740992 :: rat)"
    by simp
  then have "roundToDouble (39721748713407776925 / 9007199254740992) = Num 4410"
    using roundToDouble_tenth_44100 by simp
  then show ?thesis
    by (simp add: totalFrames_def tenth_duration)
qed

lemma long_frames:
  "totalFrames \<lparr>contextSampleRate = 44100\<rparr> longMidi = Num (of_nat 4410000000)"
proof -
  have a: "roundToDouble 100000 = Num 100000"
    by (rule roundToDouble_exact [of _ 100000 0]) simp_all
  show ?thesis
    by (simp add: totalFrames_def Midi_duration_def longMidi_def events_simps noteEnd_def a
        double_examples)
qed

lemma noteOnTimes_append: "noteOnTimes (xs @ ys) = noteOnTimes xs @ noteOnTimes ys"
  by (induction xs rule: noteOnTimes.induct) simp_all

lemma noteOnVelocities_append:
  "noteOnVelocities (xs @ ys) = noteOnVelocities xs @ noteOnVelocities ys"
  by (induction xs rule: noteOnVelocities.induct) simp_all

lemma noteOnTimes_notes: "noteOnTimes (concat (map noteMessages ns)) = map time ns"
  by (induction ns) (simp_all add: noteMessages_def)

lemma noteOnVelocities_notes:
  "noteOnVelocities (concat (map noteMessages ns)) = map velocity ns"
  by (induction ns) (simp_all add: noteMessages_def)

lemma noteOnTimes_port: "noteOnTimes (port (createSynthNode st m)) = map time (events m)"
  by (simp add: port_createSynthNode noteOnTimes_append noteOnTimes_notes split: option.split)

lemma noteOnVelocities_port:
  "noteOnVelocities (port (createSynthNode st m)) = map velocity (events m)"
  by (simp add: port_createSynthNode noteOnVelocities_append noteOnVelocities_notes
      split: option.split)

lemma processMidi_duration_only:
  assumes "Midi_duration m' = Midi_duration m"
  shows "processMidiWithSoundfont (st\<lparr>midiDataRef := Some m'\<rparr>) =
    processMidiWithSoundfont (st\<lparr>midiDataRef := Some m\<rparr>)"
  using assms by (simp add: processMidiWithSoundfont_cases totalFrames_def split: option.split)

lemma renderMidi_duration_only:
  assumes "Midi_duration m' = Midi_duration m"
  shows "renderMidi (st\<lparr>midiDataRef := Some m'\<rparr>) = renderMidi (st\<lparr>midiDataRef := Some m\<rparr>)"
  using assms by (simp add: renderMidi_cases totalFrames_def split: option.split)

lemma events_withVelocities:
  "events (withVelocities f m) = map (\<lambda>n. n\<lparr>velocity := f n\<rparr>) (events m)"
  by (simp add: events_def withVelocities_def map_concat comp_def)

lemma Midi_duration_withVelocities: "Midi_duration (withVelocities f m) = Midi_duration m"
proof -
  have "fold (\<lambda>n acc. Math_max acc (noteEnd n)) (map (\<lambda>n. n\<lparr>velocity := f n\<rparr>) ns) acc =
      fold (\<lambda>n acc. Math_max acc (noteEnd n)) ns acc" for ns acc
    by (induction ns arbitrary: acc) (simp_all add: noteEnd_def)
  then show ?thesis
    by (simp add: Midi_duration_def events_withVelocities)
qed

lemma double_times_zero_rate:
  "double_times d (Num 0) = Num 0 \<or> double_times d (Num 0) = NaN"
  by (cases d) (simp_all add: roundToDouble_def)

section \<open>The claims about the encoder\<close>

text \<open>
  Claim C1. For every structurally valid buffer (at least one channel, every channel array
  of the buffer's length) the encoder returns the 44-byte header of section 6 followed by
  the interleaved samples: bytes 0-3 \<^verbatim>\<open>RIFF\<close>, 4-7 the uint32 of 36 + data length, 8-11
  \<^verbatim>\<open>WAVE\<close>, 12-15 \<^verbatim>\<open>fmt \<close>, 16-19 the uint32 16, 20-21 the uint16 1, 22-23 the uint16
  channel count, 24-27 the uint32 sample rate, 28-31 the uint32 of sample rate times
  channels times 2, 32-33 the uint16 of channels times 2, 34-35 the uint16 16, 36-39
  \<^verbatim>\<open>data\<close>, 40-43 the uint32 data length, and from byte 44 on the samples as 16-bit
  signed little-endian values, frame by frame and channel by channel within a frame. A
  uint16 or uint32 field holds the low 16 or 32 bits of its value, which is what the
  DataView setters store.
\<close>

theorem wav_container_layout:
  assumes "valid_buffer b"
  shows "\<exists>w. audioBufferToWav b = Inr w \<and> length w = 44 + dataLength b \<and>
    bytesAt w 0 4 = map of_char ''RIFF'' \<and>
    bytesAt w 4 4 = le32 (36 + dataLength b) \<and>
    bytesAt w 8 4 = map of_char ''WAVE'' \<and>
    bytesAt w 12 4 = map of_char ''fmt '' \<and>
    bytesAt w 16 4 = le32 16 \<and>
    bytesAt w 20 2 = le16 1 \<and>
    bytesAt w 22 2 = le16 (numberOfChannels b) \<and>
    bytesAt w 24 4 = le32 (sampleRate b) \<and>
    bytesAt w 28 4 = le32 (sampleRate b * numberOfChannels b * 2) \<and>
    bytesAt w 32 2 = le16 (numberOfChannels b * 2) \<and>
    bytesAt w 34 2 = le16 16 \<and>
    bytesAt w 36 4 = map of_char ''data'' \<and>
    bytesAt w 40 4 = le32 (dataLength b) \<and>
    drop 44 w = interleaved b"
proof -
  let ?h = "wavHeader (sampleRate b) (numberOfChannels b) (dataLength b)"
  let ?w = "?h @ interleaved b"
  have run: "audioBufferToWav b = Inr ?w"
    using assms by (rule audioBufferToWav_eq)
  have len: "length ?w = 44 + dataLength b"
    by (simp add: length_wavHeader length_interleaved)
  have data: "drop 44 ?w = interleaved b"
    by (simp add: length_wavHeader)
  have fields:
    "bytesAt ?w 0 4 = map of_char ''RIFF''"
    "bytesAt ?w 4 4 = le32 (36 + dataLength b)"
    "bytesAt ?w 8 4 = map of_char ''WAVE''"
    "bytesAt ?w 12 4 = map of_char ''fmt ''"
    "bytesAt ?w 16 4 = le32 16"
    "bytesAt ?w 20 2 = le16 1"
    "bytesAt ?w 22 2 = le16 (numberOfChannels b)"
    "bytesAt ?w 24 4 = le32 (sampleRate b)"
    "bytesAt ?w 28 4 = le32 (sampleRate b * numberOfChannels b * 2)"
    "bytesAt ?w 32 2 = le16 (numberOfChannels b * 2)"
    "bytesAt ?w 34 2 = le16 16"
    "bytesAt ?w 36 4 = map of_char ''data''"
    "bytesAt ?w 40 4 = le32 (dataLength b)"
    by (simp_all add: bytesAt_header) (simp_all add: wavHeader_def le16_def le32_def)
  from run len data fields show ?thesis
    by blast
qed

theorem wav_container_layout_witness:
  "valid_buffer exampleBuffer \<and>
   (\<exists>w. audioBufferToWav exampleBuffer = Inr w \<and> length w = 52 \<and>
      bytesAt w 0 4 = [82, 73, 70, 70] \<and> bytesAt w 4 4 = [44, 0, 0, 0] \<and>
      bytesAt w 22 2 = [2, 0] \<and> bytesAt w 24 4 = [68, 172, 0, 0] \<and>
      bytesAt w 28 4 = [16, 177, 2, 0] \<and> bytesAt w 32 2 = [4, 0] \<and>
      bytesAt w 40 4 = [8, 0, 0, 0] \<and>
      drop 44 w = [255, 127, 0, 0, 0, 128, 255, 63])"
proof -
  have d: "dataLength exampleBuffer = 8" "numberOfChannels exampleBuffer = 2"
    "sampleRate exampleBuffer = 44100"
    by (simp_all add: dataLength_def numberOfChannels_def exampleBuffer_def)
  from wav_container_layout [OF valid_exampleBuffer] obtain w where
    "audioBufferToWav exampleBuffer = Inr w" "length w = 44 + dataLength exampleBuffer"
    "bytesAt w 0 4 = map of_char ''RIFF''"
    "bytesAt w 4 4 = le32 (36 + dataLength exampleBuffer)"
    "bytesAt w 22 2 = le16 (numberOfChannels exampleBuffer)"
    "bytesAt w 24 4 = le32 (sampleRate exampleBuffer)"
    "bytesAt w 28 4 = le32 (sampleRate exampleBuffer * numberOfChannels exampleBuffer * 2)"
    "bytesAt w 32 2 = le16 (numberOfChannels exampleBuffer * 2)"
    "bytesAt w 40 4 = le32 (dataLength exampleBuffer)"
    "drop 44 w = interleaved exampleBuffer"
    by blast
  then show ?thesis
    using valid_exampleBuffer
    by (simp add: d interleaved_exampleBuffer le16_def le32_def)
qed

text \<open>
  Claim C2. Every sample is first clamped to the interval from -1 to 1 and then scaled, by
  32768 when the clamped value is negative and by 32767 otherwise, and stored as the
  truncation of that product; the stored value always lies between -32768 and 32767, so
  the conversion to 16 bits never wraps. A sample of exactly 1 encodes to 32767, exactly -1
  to -32768 and 0 to 0; an infinite sample clamps to 1 or -1, and a NaN sample stays NaN
  and is stored as 0. The encoder returns a result for every structurally valid buffer,
  and its data bytes are these values, interleaved.
\<close>

theorem quantization_clamps_then_scales:
  assumes "valid_buffer b"
  shows "clampSample (Num r) = Num (max (-1) (min 1 r)) \<and>
    encodeSample (Num r) =
      Math_trunc (if max (-1) (min 1 r) < 0 then max (-1) (min 1 r) * 32768
                  else max (-1) (min 1 r) * 32767) \<and>
    encodeSample x = ToIntegerOrZero (scaleSample (clampSample x)) \<and>
    -32768 \<le> encodeSample x \<and> encodeSample x \<le> 32767 \<and>
    encodeSample (Num 1) = 32767 \<and> encodeSample (Num (-1)) = -32768 \<and>
    encodeSample (Num 0) = 0 \<and>
    encodeSample PosInf = 32767 \<and> encodeSample NegInf = -32768 \<and> encodeSample NaN = 0 \<and>
    (\<exists>w. audioBufferToWav b = Inr w \<and> drop 44 w = interleaved b)"
proof -
  have "-32768 \<le> encodeSample x \<and> encodeSample x \<le> 32767"
    using scaled_in_range [of x] by (simp only: encodeSample_no_wrap)
  moreover have "\<exists>w. audioBufferToWav b = Inr w \<and> drop 44 w = interleaved b"
    using audioBufferToWav_eq [OF assms] by (simp add: length_wavHeader)
  ultimately show ?thesis
    using encodeSample_values encodeSample_Num [of r] clampSample_Num [of r]
      encodeSample_no_wrap [of x]
    by blast
qed

theorem quantization_clamps_then_scales_witness:
  "valid_buffer exampleBuffer \<and> clampSample (Num (3 / 2)) = Num 1 \<and>
   encodeSample (Num (3 / 2)) = 32767 \<and> encodeSample (Num (-7)) = -32768 \<and>
   (\<exists>w. audioBufferToWav exampleBuffer = Inr w \<and>
      drop 44 w = [255, 127, 0, 0, 0, 128, 255, 63])"
proof -
  have m: "max (-1) (min 1 (3 / 2 :: rat)) = 1" "max (-1) (min 1 (-7 :: rat)) = -1"
    by simp_all
  from quantization_clamps_then_scales [OF valid_exampleBuffer, of "3 / 2" "Num (-7)"]
  have "clampSample (Num (3 / 2)) = Num 1" "encodeSample (Num (3 / 2)) = 32767"
    "\<exists>w. audioBufferToWav exampleBuffer = Inr w \<and>
       drop 44 w = [255, 127, 0, 0, 0, 128, 255, 63]"
    by (simp_all add: Math_trunc_def interleaved_exampleBuffer)
  moreover from quantization_clamps_then_scales [OF valid_exampleBuffer, of "-7" "Num (-7)"]
  have "encodeSample (Num (-7)) = -32768"
    by (simp add: Math_trunc_def)
  ultimately show ?thesis
    using valid_exampleBuffer by blast
qed

text \<open>
  Claim C9 says that the source scales without clamping first, so that some sample scales to
  a value outside the signed 16-bit range. Line 171 of the source clamps before line 172
  scales: no sample at all scales to a value outside the range.
\<close>

theorem no_sample_scales_out_of_range:
  "\<not> (\<exists>x. outsideInt16 (scaleSample (clampSample x)))"
  using scaled_not_outside by blast

text \<open>
  Claim C9, amended. The value that is scaled is the clamped sample
  \<^verbatim>\<open>Math.max(-1, Math.min(1, x))\<close>, and for every sample the scaled result is a number that
  a signed 16-bit integer holds (or NaN, stored as 0, for a NaN sample). The sample 2 would
  scale to 65534 unclamped and scales to 32767 as the source has it; the sample -2 would
  scale to -65536 and scales to -32768.
\<close>

theorem scaled_sample_within_int16:
  "clampSample x = Math_max (Num (-1)) (Math_min (Num 1) x) \<and>
   \<not> outsideInt16 (scaleSample (clampSample x)) \<and>
   scaleSample (Num 2) = Num 65534 \<and> scaleSample (clampSample (Num 2)) = Num 32767 \<and>
   scaleSample (Num (-2)) = Num (-65536) \<and> scaleSample (clampSample (Num (-2))) = Num (-32768)"
proof -
  have "scaleSample (Num 2) = Num 65534" "scaleSample (Num (-2)) = Num (-65536)"
    by (simp_all add: scaleSample_Num)
  moreover have "scaleSample (clampSample (Num 2)) = Num 32767"
    "scaleSample (clampSample (Num (-2))) = Num (-32768)"
    by (simp_all add: scaled_clamped_cases)
  ultimately show ?thesis
    using scaled_not_outside [of x] by (simp add: clampSample_def)
qed

text \<open>
  Claim C8 fails for a buffer whose data length does not fit the 32-bit field: two channels
  of 1073741824 frames give a data length of 4294967296 bytes, and bytes 40-43 of the
  result decode to 0.
\<close>

theorem header_roundtrip_counterexample:
  "valid_buffer hugeBuffer \<and> dataLength hugeBuffer = 4294967296 \<and>
   (\<exists>w. audioBufferToWav hugeBuffer = Inr w \<and> getUint32 w 40 = 0)"
proof -
  have d: "dataLength hugeBuffer = 4294967296"
    by (simp add: dataLength_def numberOfChannels_def hugeBuffer_def)
  let ?w = "wavHeader (sampleRate hugeBuffer) (numberOfChannels hugeBuffer) 4294967296 @
    interleaved hugeBuffer"
  have run: "audioBufferToWav hugeBuffer = Inr ?w"
    using audioBufferToWav_eq [OF valid_hugeBuffer] by (simp only: d)
  have dec: "getUint32 ?w 40 = 0"
    by (simp only: header_fields_decode) (simp add: getUint32_def le32_def)
  from valid_hugeBuffer d run dec show ?thesis
    by blast
qed

text \<open>
  Claim C8, amended. For every structurally valid buffer whose channel count is below
  65536 and whose sample rate and data length are below 4294967296, decoding bytes 24-27,
  22-23 and 40-43 of the encoded container recovers the sample rate, the channel count and
  the data length.
\<close>

theorem header_roundtrip:
  assumes "valid_buffer b" and "numberOfChannels b < 65536" and "sampleRate b < 4294967296"
    and "dataLength b < 4294967296"
  shows "\<exists>w. audioBufferToWav b = Inr w \<and> getUint32 w 24 = sampleRate b \<and>
    getUint16 w 22 = numberOfChannels b \<and> getUint32 w 40 = dataLength b"
proof -
  let ?w = "wavHeader (sampleRate b) (numberOfChannels b) (dataLength b) @ interleaved b"
  have "getUint16 ?w 22 = numberOfChannels b"
    using getUint16_le16 [OF assms(2), of "[]" "[]"] by (simp only: header_fields_decode) simp
  moreover have "getUint32 ?w 24 = sampleRate b"
    using getUint32_le32 [OF assms(3), of "[]" "[]"] by (simp only: header_fields_decode) simp
  moreover have "getUint32 ?w 40 = dataLength b"
    using getUint32_le32 [OF assms(4), of "[]" "[]"] by (simp only: header_fields_decode) simp
  ultimately show ?thesis
    using audioBufferToWav_eq [OF assms(1)] by blast
qed

theorem header_roundtrip_witness:
  "valid_buffer exampleBuffer \<and> numberOfChannels exampleBuffer < 65536 \<and>
   sampleRate exampleBuffer < 4294967296 \<and> dataLength exampleBuffer < 4294967296 \<and>
   (\<exists>w. audioBufferToWav exampleBuffer = Inr w \<and> getUint32 w 24 = 44100 \<and>
      getUint16 w 22 = 2 \<and> getUint32 w 40 = 8)"
proof -
  have d: "dataLength exampleBuffer = 8" "numberOfChannels exampleBuffer = 2"
    "sampleRate exampleBuffer = 44100"
    by (simp_all add: dataLength_def numberOfChannels_def exampleBuffer_def)
  from header_roundtrip [OF valid_exampleBuffer] d show ?thesis
    using valid_exampleBuffer by simp
qed

section \<open>The claims about the renderer\<close>

text \<open>
  Claim C3 names a run with one channel and a 440 Hz oscillator. The source has no channel
  parameter: the offline context is always created with 2 channels, so for the scenario's
  timeline at 44100 Hz bytes 22-23 of the result are not the uint16 1.
\<close>

theorem a4_scenario_channel_count_counterexample:
  "\<not> (\<exists>w. processMidiWithSoundfont scenarioA4 = Inr w \<and> bytesAt w 22 2 = le16 1)"
  by (simp add: processMidi_frames(2) [OF _ _ scenarioA4_frames] scenarioA4_def
      silentWav_facts le16_def)

text \<open>
  Claim C3, amended. For a single track with one note of key 69, velocity 1, start 0 and
  duration 1, a context at 44100 Hz and no soundfont, the rendered buffer has exactly 44100
  frames in 2 channels, every sample of it is zero (no oscillator is synthesized), the
  result has 176444 bytes, bytes 22-23 hold 2 and all 176400 data bytes are zero.
\<close>

theorem a4_scenario_renders_silent_stereo:
  "renderMidi scenarioA4 =
     Inr \<lparr>sampleRate = 44100, bufferLength = 44100,
          channelData = [replicate 44100 (Num 0), replicate 44100 (Num 0)]\<rparr> \<and>
   (\<exists>w. processMidiWithSoundfont scenarioA4 = Inr w \<and> length w = 176444 \<and>
      bytesAt w 22 2 = [2, 0] \<and> drop 44 w = replicate 176400 0)"
  by (simp add: processMidi_frames [OF _ _ scenarioA4_frames] scenarioA4_def silentWav_facts)

text \<open>
  Claim C4 says that the note events are scheduled stable-sorted by start time. The source
  walks the tracks and their notes in the given order and sorts nothing: with a first track
  whose note starts at second 1 and a second track whose note starts at second 0, the
  note-on messages are posted with times 1, 0.
\<close>

theorem scheduling_not_sorted_counterexample:
  "noteOnTimes (port (createSynthNode (stateOf lateFirstMidi) lateFirstMidi)) = [1, 0] \<and>
   \<not> sorted (noteOnTimes (port (createSynthNode (stateOf lateFirstMidi) lateFirstMidi)))"
  by (simp add: noteOnTimes_port lateFirstMidi_def events_simps)

text \<open>
  Claim C4, amended. The renderer posts, after the soundfont message if there is one, a
  note-on and a note-off message per note in track order and insertion order within a
  track, without sorting; and permuting the events of the timeline (any two timelines with
  the same events, overlapping or not) yields the same result, byte for byte.
\<close>

theorem scheduling_in_insertion_order:
  assumes "mset (events m') = mset (events m)"
  shows "port (createSynthNode st m) =
      (case soundfontDataRef st of Some data \<Rightarrow> [LoadSoundfont data] | None \<Rightarrow> []) @
      concat (map (\<lambda>n. [NoteOn (midi n) (velocity n) (time n),
                         NoteOff (midi n) (double_plus (Num (time n)) (Num (duration n)))])
                (events m)) \<and>
    noteOnTimes (port (createSynthNode st m)) = map time (events m) \<and>
    processMidiWithSoundfont (st\<lparr>midiDataRef := Some m'\<rparr>) =
      processMidiWithSoundfont (st\<lparr>midiDataRef := Some m\<rparr>)"
proof -
  have "concat (map noteMessages (events m)) =
      concat (map (\<lambda>n. [NoteOn (midi n) (velocity n) (time n),
                         NoteOff (midi n) (double_plus (Num (time n)) (Num (duration n)))])
                (events m))"
    by (rule arg_cong [where f = concat], rule map_cong) (simp_all add: noteMessages_def)
  then have "port (createSynthNode st m) =
      (case soundfontDataRef st of Some data \<Rightarrow> [LoadSoundfont data] | None \<Rightarrow> []) @
      concat (map (\<lambda>n. [NoteOn (midi n) (velocity n) (time n),
                         NoteOff (midi n) (double_plus (Num (time n)) (Num (duration n)))])
                (events m))"
    by (simp only: port_createSynthNode)
  moreover have "noteOnTimes (port (createSynthNode st m)) = map time (events m)"
    by (rule noteOnTimes_port)
  moreover have "processMidiWithSoundfont (st\<lparr>midiDataRef := Some m'\<rparr>) =
      processMidiWithSoundfont (st\<lparr>midiDataRef := Some m\<rparr>)"
    by (rule processMidi_duration_only [OF Midi_duration_mset [OF assms]])
  ultimately show ?thesis
    by blast
qed

theorem scheduling_in_insertion_order_witness:
  "mset (events earlyFirstMidi) = mset (events lateFirstMidi) \<and>
   port (createSynthNode (stateOf lateFirstMidi) lateFirstMidi) =
     [NoteOn 60 1 1, NoteOff 60 (Num 2), NoteOn 62 1 0, NoteOff 62 (Num 1)] \<and>
   processMidiWithSoundfont (stateOf earlyFirstMidi) =
     processMidiWithSoundfont (stateOf lateFirstMidi)"
proof -
  have p: "mset (events earlyFirstMidi) = mset (events lateFirstMidi)"
    by (simp add: earlyFirstMidi_def lateFirstMidi_def events_simps)
  have s: "stateOf lateFirstMidi\<lparr>midiDataRef := Some earlyFirstMidi\<rparr> = stateOf earlyFirstMidi"
    "stateOf lateFirstMidi\<lparr>midiDataRef := Some lateFirstMidi\<rparr> = stateOf lateFirstMidi"
    by (simp_all add: stateOf_def)
  from scheduling_in_insertion_order [OF p, of "stateOf lateFirstMidi"]
  have "port (createSynthNode (stateOf lateFirstMidi) lateFirstMidi) =
     [NoteOn 60 1 1, NoteOff 60 (Num 2), NoteOn 62 1 0, NoteOff 62 (Num 1)]"
    and "processMidiWithSoundfont (stateOf earlyFirstMidi) =
     processMidiWithSoundfont (stateOf lateFirstMidi)"
    by (simp_all add: s)
       (simp add: stateOf_def lateFirstMidi_def events_simps double_examples)
  with p show ?thesis
    by blast
qed




text \<open>
  Claim C6 says that a note of velocity 0 is rejected with an InvalidNote error. The source
  validates no note: the note of velocity 0 is posted like any other and the run returns a
  container.
\<close>

theorem zero_velocity_not_rejected_counterexample:
  "port (createSynthNode (stateOf zeroVelocityMidi) zeroVelocityMidi) =
     [NoteOn 69 0 0, NoteOff 69 (Num 1)] \<and>
   processMidiWithSoundfont (stateOf zeroVelocityMidi) = Inr (silentWav 44100 44100)"
proof -
  have "processMidiWithSoundfont (stateOf zeroVelocityMidi) = Inr (silentWav 44100 44100)"
    using processMidi_frames(2) [OF _ _ zeroVelocity_frames, of "stateOf zeroVelocityMidi"]
    by (simp add: stateOf_def)
  then show ?thesis
    by (simp add: stateOf_def port_createSynthNode noteMessages_def zeroVelocityMidi_def
        events_simps double_examples)
qed

text \<open>
  Claim C6, amended. No note is rejected for its velocity: the note-on messages carry the
  velocities of the notes unchanged, zero included, and the result of the run does not
  depend on any velocity (replacing every velocity by any other value leaves it the same).
\<close>

theorem velocity_is_ignored:
  "noteOnVelocities (port (createSynthNode st m)) = map velocity (events m) \<and>
   processMidiWithSoundfont (st\<lparr>midiDataRef := Some (withVelocities f m)\<rparr>) =
     processMidiWithSoundfont (st\<lparr>midiDataRef := Some m\<rparr>)"
  using processMidi_duration_only [OF Midi_duration_withVelocities]
  by (simp add: noteOnVelocities_port)

text \<open>
  Claim C7 says that for every timeline with at least one event the rendered buffer has
  \<open>ceil(maxEndTime \<times> sampleRate)\<close> frames. The length of line 80 is the ceiling of a
  product of doubles, handed to a constructor whose length is an unsigned 32-bit integer.
  For one note of 100000 seconds at 44100 Hz the product is 4410000000, more than such an
  integer holds: no buffer of that length is rendered. For a note as long as the double
  nearest to 0.1 the product taken exactly lies above 4410 and its ceiling is 4411, while
  the product of line 80 is rounded to 4410 and the buffer has 4410 frames.
\<close>

theorem buffer_length_counterexample:
  "events longMidi \<noteq> [] \<and>
   Midi_duration longMidi = Num 100000 \<and>
   \<not> (\<exists>buf. renderMidi (stateOf longMidi) = Inr buf \<and>
          int (bufferLength buf) = \<lceil>(100000 :: rat) * 44100\<rceil>) \<and>
   Midi_duration tenthMidi = Num (3602879701896397 / 36028797018963968) \<and>
   \<lceil>(3602879701896397 / 36028797018963968 :: rat) * 44100\<rceil> = 4411 \<and>
   (\<exists>buf. renderMidi (stateOf tenthMidi) = Inr buf \<and> bufferLength buf = 4410)"
proof -
  have "toUnsignedLong (Num (of_nat 4410000000)) = Inl TypeError"
    by (rule toUnsignedLong_too_large) simp
  then have "renderMidi (stateOf longMidi) = Inl TypeError"
    by (simp only: renderMidi_cases long_frames stateOf_def AppState.simps option.case
        prod.case sum.case)
  then have l: "\<not> (\<exists>buf. renderMidi (stateOf longMidi) = Inr buf \<and>
          int (bufferLength buf) = \<lceil>(100000 :: rat) * 44100\<rceil>)"
    by simp
  have d: "Midi_duration longMidi = Num 100000"
  proof -
    have "roundToDouble 100000 = Num 100000"
      by (rule roundToDouble_exact [of _ 100000 0]) simp_all
    then show ?thesis
      by (simp add: Midi_duration_def longMidi_def events_simps noteEnd_def)
  qed
  have e: "events longMidi \<noteq> []"
    by (simp add: longMidi_def events_simps)
  have c: "\<lceil>(3602879701896397 / 36028797018963968 :: rat) * 44100\<rceil> = 4411"
    by (rule ceiling_unique) simp_all
  have "renderMidi (stateOf tenthMidi) =
      Inr \<lparr>sampleRate = 44100, bufferLength = 4410,
           channelData = [replicate 4410 (Num 0), replicate 4410 (Num 0)]\<rparr>"
    using processMidi_frames(1) [OF _ _ tenth_frames, of "stateOf tenthMidi"]
    by (simp add: stateOf_def)
  then have t: "\<exists>buf. renderMidi (stateOf tenthMidi) = Inr buf \<and> bufferLength buf = 4410"
    by simp
  from e d l tenth_duration c t show ?thesis
    by blast
qed

text \<open>
  Claim C7, amended. The duration of a timeline with at least one event is the maximum over
  all events of start time plus duration, each sum a double. Whenever the ceiling of its
  double product with the sample rate is an integer from 1 to 4294967295, rendering returns
  a buffer of exactly that many frames, every channel has that length, and every timeline
  with the same events in another order renders the same buffer.
\<close>

theorem buffer_length_is_ceil_of_duration:
  assumes "audioContextRef st = Some ctx" and "midiDataRef st = Some m"
    and "events m \<noteq> []"
    and "Math_ceil (double_times (Midi_duration m) (Num (of_nat (contextSampleRate ctx)))) =
      Num (of_nat l)"
    and "0 < l" and "l \<le> 4294967295"
  shows "Midi_duration m \<in> (\<lambda>n. double_plus (Num (time n)) (Num (duration n))) ` set (events m) \<and>
    list_all (\<lambda>n. \<not> js_less (Midi_duration m) (double_plus (Num (time n)) (Num (duration n))))
      (events m) \<and>
    (\<exists>buf. renderMidi st = Inr buf \<and> bufferLength buf = l \<and>
       list_all (\<lambda>c. length c = l) (channelData buf) \<and>
       (\<forall>m'. mset (events m') = mset (events m) \<longrightarrow>
          renderMidi (st\<lparr>midiDataRef := Some m'\<rparr>) = Inr buf))"
proof -
  have frames: "totalFrames ctx m = Num (of_nat l)"
    using assms(4) by (simp add: totalFrames_def)
  have rate: "0 < contextSampleRate ctx"
  proof (rule ccontr)
    assume "\<not> 0 < contextSampleRate ctx"
    then have "contextSampleRate ctx = 0"
      by simp
    with assms(4) double_times_zero_rate [of "Midi_duration m"] assms(5) show False
      by auto
  qed
  let ?buf = "\<lparr>sampleRate = contextSampleRate ctx, bufferLength = l,
      channelData = [replicate l (Num 0), replicate l (Num 0)]\<rparr>"
  have run: "renderMidi st = Inr ?buf"
    by (rule processMidi_frames(1) [OF assms(1,2) frames assms(5,6) rate])
  have same: "renderMidi (st\<lparr>midiDataRef := Some m'\<rparr>) = Inr ?buf"
    if "mset (events m') = mset (events m)" for m'
  proof -
    have "st\<lparr>midiDataRef := Some m\<rparr> = st"
      using assms(2) by simp
    with renderMidi_duration_only [OF Midi_duration_mset [OF that], of st] run
    show ?thesis by simp
  qed
  have "list_all (\<lambda>c. length c = l) (channelData ?buf)"
    by simp
  with run same have "\<exists>buf. renderMidi st = Inr buf \<and> bufferLength buf = l \<and>
       list_all (\<lambda>c. length c = l) (channelData buf) \<and>
       (\<forall>m'. mset (events m') = mset (events m) \<longrightarrow>
          renderMidi (st\<lparr>midiDataRef := Some m'\<rparr>) = Inr buf)"
    by (intro exI [of _ ?buf]) simp
  moreover from Midi_duration_is_max [OF assms(3)]
  have "Midi_duration m \<in> (\<lambda>n. double_plus (Num (time n)) (Num (duration n))) ` set (events m)"
    and "list_all (\<lambda>n. \<not> js_less (Midi_duration m) (double_plus (Num (time n)) (Num (duration n))))
      (events m)"
    by (simp_all add: noteEnd_def [abs_def])
  ultimately show ?thesis
    by blast
qed

theorem buffer_length_is_ceil_of_duration_witness:
  "audioContextRef (stateOf tenthMidi) = Some \<lparr>contextSampleRate = 44100\<rparr> \<and>
   midiDataRef (stateOf tenthMidi) = Some tenthMidi \<and>
   events tenthMidi \<noteq> [] \<and>
   Midi_duration tenthMidi = Num (3602879701896397 / 36028797018963968) \<and>
   Math_ceil (double_times (Midi_duration tenthMidi) (Num 44100)) = Num 4410 \<and>
   (\<exists>buf. renderMidi (stateOf tenthMidi) = Inr buf \<and> bufferLength buf = 4410 \<and>
      renderMidi (stateOf
        \<lparr>tracks = [\<lparr>trackNotes = [\<lparr>midi = 64, velocity = 1, time = 0,
                                    duration = 3602879701896397 / 36028797018963968\<rparr>,
                                  \<lparr>midi = 60, velocity = 1, time = 0, duration = 1 / 16\<rparr>]\<rparr>]\<rparr>)
        = Inr buf)"
proof -
  let ?m' = "\<lparr>tracks = [\<lparr>trackNotes = [\<lparr>midi = 64, velocity = 1, time = 0,
                                    duration = 3602879701896397 / 36028797018963968\<rparr>,
                                  \<lparr>midi = 60, velocity = 1, time = 0, duration = 1 / 16\<rparr>]\<rparr>]\<rparr>"
  have a: "audioContextRef (stateOf tenthMidi) = Some \<lparr>contextSampleRate = 44100\<rparr>"
    and b: "midiDataRef (stateOf tenthMidi) = Some tenthMidi"
    by (simp_all add: stateOf_def)
  have c: "events tenthMidi \<noteq> []"
    by (simp add: tenth_events)
  have f: "Math_ceil (double_times (Midi_duration tenthMidi)
      (Num (of_nat (contextSampleRate \<lparr>contextSampleRate = 44100\<rparr>)))) = Num (of_nat 4410)"
    using tenth_frames by (simp add: totalFrames_def)
  have p: "mset (events ?m') = mset (events tenthMidi)"
    by (simp add: tenth_events events_simps)
  have s: "stateOf tenthMidi\<lparr>midiDataRef := Some ?m'\<rparr> = stateOf ?m'"
    by (simp add: stateOf_def)
  from buffer_length_is_ceil_of_duration [OF a b c f]
  obtain buf where "renderMidi (stateOf tenthMidi) = Inr buf" "bufferLength buf = 4410"
    and all: "\<forall>m'. mset (events m') = mset (events tenthMidi) \<longrightarrow>
          renderMidi (stateOf tenthMidi\<lparr>midiDataRef := Some m'\<rparr>) = Inr buf"
    by auto
  moreover from all p s have "renderMidi (stateOf ?m') = Inr buf"
    by metis
  moreover have "Math_ceil (double_times (Midi_duration tenthMidi) (Num 44100)) = Num 4410"
    using f by simp
  ultimately show ?thesis
    using a b c tenth_duration by blast
qed

text \<open>
  Claim C10. The \<^verbatim>\<open>process\<close> method of the processor returns its outputs unchanged,
  rendering does not depend on the messages posted to the node, and whenever a run returns
  a container, for any timeline and any soundfont, the rendered buffer consists of zero
  samples only and every byte after the 44-byte header is 0.
\<close>

theorem rendered_audio_is_silent:
  assumes "processMidiWithSoundfont st = Inr w"
  shows "SoundfontProcessor_process inputs outputs = (outputs, True) \<and>
    startRendering offlineCtx node = startRendering offlineCtx \<lparr>port = []\<rparr> \<and>
    (\<exists>buf. renderMidi st = Inr buf \<and>
       channelData buf = replicate 2 (replicate (bufferLength buf) (Num 0)) \<and>
       length w = 44 + bufferLength buf * 2 * 2) \<and>
    drop 44 w = replicate (length w - 44) 0"
proof -
  from assms obtain ctx m l where refs: "audioContextRef st = Some ctx" "midiDataRef st = Some m"
    and len: "toUnsignedLong (totalFrames ctx m) = Inr l"
    and ok: "\<not> (l = 0 \<or> contextSampleRate ctx = 0)"
    and w: "w = silentWav (contextSampleRate ctx) l"
    by (auto simp: processMidiWithSoundfont_cases split: option.splits sum.splits if_splits)
  let ?buf = "\<lparr>sampleRate = contextSampleRate ctx, bufferLength = l,
      channelData = [replicate l (Num 0), replicate l (Num 0)]\<rparr>"
  have "renderMidi st = Inr ?buf"
    using refs len ok by (simp add: renderMidi_cases)
  moreover have "channelData ?buf = replicate 2 (replicate (bufferLength ?buf) (Num 0))"
    by (simp add: numeral_2_eq_2)
  moreover have "length w = 44 + bufferLength ?buf * 2 * 2"
    by (simp add: w silentWav_facts)
  ultimately have buf: "\<exists>buf. renderMidi st = Inr buf \<and>
       channelData buf = replicate 2 (replicate (bufferLength buf) (Num 0)) \<and>
       length w = 44 + bufferLength buf * 2 * 2"
    by blast
  have "drop 44 w = replicate (length w - 44) 0"
    by (simp add: w silentWav_facts)
  with buf show ?thesis
    by (simp add: SoundfontProcessor_process_def startRendering_silent)
qed

theorem rendered_audio_is_silent_witness:
  "processMidiWithSoundfont tinyState = Inr (silentWav 44100 2) \<and>
   length (silentWav 44100 2) = 52 \<and>
   drop 44 (silentWav 44100 2) = [0, 0, 0, 0, 0, 0, 0, 0]"
proof -
  from rendered_audio_is_silent [OF tinyState_runs]
  have "drop 44 (silentWav 44100 2) = replicate (length (silentWav 44100 2) - 44) 0"
    by blast
  moreover have "length (silentWav 44100 2) = 52"
    by (simp add: silentWav_facts)
  moreover have "replicate 8 (0::nat) = [0, 0, 0, 0, 0, 0, 0, 0]"
    by (simp add: numeral_eq_Suc)
  ultimately show ?thesis
    using tinyState_runs by simp
qed

end
